theory Spec2Isabelle
  imports Complex_Main "HOL-Library.Multiset" "HOL-Library.Product_Lexorder"
begin

section \<open>Data model (types.ts)\<close>

text \<open>
  JavaScript numbers are modelled exactly: grid sizes, level numbers and timers as \<open>int\<close>,
  coordinates and random draws as \<open>rat\<close> (an exiting piece is sent \<open>gridSize * 2.5\<close> cells
  away, which is a half-integer on the odd grids). \<open>undefined\<close> is \<open>None\<close>.
  The fields \<open>id\<close>, \<open>x\<close>, \<open>y\<close> and \<open>type\<close> of \<open>CatEntity\<close> are written
  \<open>cat_id\<close>, \<open>cat_x\<close>, \<open>cat_y\<close> and \<open>cat_type\<close>.
\<close>

datatype Direction = UP | DOWN | LEFT | RIGHT

datatype CatType = NORMAL | BOMB

record CatEntity =
  cat_id :: string
  cat_x :: rat
  cat_y :: rat
  direction :: Direction
  cat_type :: CatType
  timer :: "int option"
  color :: "string option"
  isExited :: bool
  isMoving :: bool

record LevelData =
  cats :: "CatEntity list"
  gridSize :: int
  level :: int
  unlockedMessage :: "string option"

section \<open>Constants and geometry (constants.ts, levelGenerator)\<close>

definition BOMB_TIME_SECONDS :: int where
  "BOMB_TIME_SECONDS = 120"

definition CAT_SKINS :: "string list" where
  "CAT_SKINS = [''bg-slate-100'', ''bg-orange-300'', ''bg-slate-400'', ''bg-amber-200'',
     ''bg-stone-600'', ''bg-pink-300'', ''bg-purple-300'', ''bg-teal-300'']"

text \<open>\<open>getDelta\<close> returns the object \<open>{dx, dy}\<close>, here the pair \<open>(dx, dy)\<close>.\<close>

fun getDelta :: "Direction \<Rightarrow> rat \<times> rat" where
  "getDelta UP = (0, -1)"
| "getDelta DOWN = (0, 1)"
| "getDelta LEFT = (-1, 0)"
| "getDelta RIGHT = (1, 0)"

fun getOppositeDir :: "Direction \<Rightarrow> Direction" where
  "getOppositeDir UP = DOWN"
| "getOppositeDir DOWN = UP"
| "getOppositeDir LEFT = RIGHT"
| "getOppositeDir RIGHT = LEFT"

definition isValid :: "rat \<Rightarrow> rat \<Rightarrow> int \<Rightarrow> bool" where
  "isValid px py sz \<longleftrightarrow> px \<ge> 0 \<and> px < of_int sz \<and> py \<ge> 0 \<and> py < of_int sz"

text \<open>\<open>Math.round\<close>: the nearest integer, a tie going up.\<close>

definition jsRound :: "rat \<Rightarrow> rat" where
  "jsRound v = of_int \<lfloor>v + 1 / 2\<rfloor>"

text \<open>The two cells of a piece: its head, and its tail \<open>head - delta(direction)\<close>.\<close>

definition headCell :: "CatEntity \<Rightarrow> rat \<times> rat" where
  "headCell c = (cat_x c, cat_y c)"

definition tailCell :: "CatEntity \<Rightarrow> rat \<times> rat" where
  "tailCell c = (cat_x c - fst (getDelta (direction c)), cat_y c - snd (getDelta (direction c)))"

section \<open>Bulk flip (App.tsx, handleGlobalFlip)\<close>

text \<open>The function mapped over the piece list by \<open>handleGlobalFlip\<close> (lines 264-283).\<close>

definition flipCat :: "CatEntity \<Rightarrow> CatEntity" where
  "flipCat cat =
     (if isExited cat then cat
      else
        let newDir = UP;
            newDir = (if direction cat = UP then DOWN
                      else if direction cat = DOWN then UP
                      else if direction cat = LEFT then RIGHT
                      else if direction cat = RIGHT then LEFT
                      else newDir);
            delta = getDelta (direction cat);
            newHeadX = cat_x cat - fst delta;
            newHeadY = cat_y cat - snd delta
        in cat\<lparr>direction := newDir, cat_x := newHeadX, cat_y := newHeadY\<rparr>)"

definition flipAll :: "CatEntity list \<Rightarrow> CatEntity list" where
  "flipAll prev = map flipCat prev"

section \<open>Level configuration (levelGenerator, getLevelConfig)\<close>

text \<open>The field \<open>size\<close> of \<open>LevelConfig\<close> is written \<open>cfg_size\<close>.\<close>

record LevelConfig =
  cfg_size :: int
  skinCount :: int
  bombChance :: rat
  unlockMsg :: "string option"

text \<open>The level-5 message starts with a warning sign, six bytes in the UTF-8 source.\<close>

definition bombUnlockMsg :: string where
  "bombUnlockMsg = [CHR 0xE2, CHR 0x9A, CHR 0xA0, CHR 0xEF, CHR 0xB8, CHR 0x8F]
     @ '' Bomb Cats & Bigger Grid!''"

definition getLevelConfig :: "int \<Rightarrow> LevelConfig" where
  "getLevelConfig lvl =
     (let sz = 8;
          sz = (if lvl \<ge> 5 then 9 else sz);
          sz = (if lvl \<ge> 10 then 10 else sz);
          sz = (if lvl \<ge> 20 then 11 else sz);
          skins = min (int (length CAT_SKINS)) (2 + (lvl - 1) div 3);
          chance = 0;
          chance = (if lvl \<ge> 5 then 5 / 100 else chance);
          chance = (if lvl \<ge> 15 then 10 / 100 else chance);
          chance = (if lvl \<ge> 30 then 15 / 100 else chance);
          msg = (if lvl = 1 then Some ''Tap cats to clear!''
                 else if lvl = 5 then Some bombUnlockMsg
                 else None)
      in \<lparr>cfg_size = sz, skinCount = skins, bombChance = chance, unlockMsg = msg\<rparr>)"

section \<open>Randomness\<close>

text \<open>
  The outcomes of the random calls are inputs of the model.
  \<open>random k\<close> is the value of the \<open>k\<close>-th call of \<open>Math.random()\<close> that the code makes
  itself (in \<open>[0, 1)\<close>). A sort with the comparator \<open>Math.random() - 0.5\<close> draws as often
  as the engine's sort decides and returns some rearrangement of its argument:
  \<open>sortCells\<close> is that rearrangement of the cell list and \<open>sortDirs k\<close> the one of the four
  directions at the \<open>k\<close>-th such call. \<open>toId\<close> is the rendering
  \<open>toString(36).substr(2, 9)\<close> of a draw.
\<close>

record Randomness =
  random :: "nat \<Rightarrow> rat"
  sortCells :: "(rat \<times> rat) list \<Rightarrow> (rat \<times> rat) list"
  sortDirs :: "nat \<Rightarrow> Direction list"
  toId :: "rat \<Rightarrow> string"

section \<open>Level generator (levelGenerator, generateLevel)\<close>

text \<open>A cell \<open>{x, y}\<close> is the pair \<open>(x, y)\<close>; the rows are pushed one after the other.\<close>

definition allCells :: "int \<Rightarrow> (rat \<times> rat) list" where
  "allCells g = concat (map (\<lambda>cy. map (\<lambda>cx. (of_int cx, of_int cy)) [0..g - 1]) [0..g - 1])"

text \<open>
  The Fisher-Yates loop \<open>for (i = length - 1; i > 0; i--)\<close>, drawing \<open>random n\<close> first.
\<close>

fun fisherYates :: "(nat \<Rightarrow> rat) \<Rightarrow> nat \<Rightarrow> nat \<Rightarrow> 'a list \<Rightarrow> 'a list" where
  "fisherYates rnd n 0 ds = ds"
| "fisherYates rnd n (Suc i) ds =
     (let j = nat \<lfloor>rnd n * of_nat (Suc i + 1)\<rfloor>
      in fisherYates rnd (Suc n) i (ds[Suc i := ds ! j, j := ds ! Suc i]))"

text \<open>\<open>xs.slice(0, e)\<close> and \<open>xs[k]\<close> (\<open>undefined\<close> out of range).\<close>

definition jsSlice0 :: "'a list \<Rightarrow> int \<Rightarrow> 'a list" where
  "jsSlice0 xs e =
     take (nat (if e < 0 then max (int (length xs) + e) 0 else min e (int (length xs)))) xs"

definition jsIndex :: "'a list \<Rightarrow> int \<Rightarrow> 'a option" where
  "jsIndex xs k = (if 0 \<le> k \<and> k < int (length xs) then Some (xs ! nat k) else None)"

text \<open>
  The placement loop \<open>for (const cell of allCells)\<close>. \<open>n\<close> counts the draws made so far,
  \<open>cs\<close> is the array \<open>cats\<close> and \<open>occupied\<close> the set of keys \<open>"x,y"\<close>, kept as a set of
  cells. Per visited cell: three draws for the direction shuffle, then, when a direction
  fits, one for \<open>isBomb\<close>, one for the skin and one for \<open>genId()\<close>.
\<close>

fun placeCats :: "LevelConfig \<Rightarrow> Randomness \<Rightarrow> int \<Rightarrow> int \<Rightarrow> (rat \<times> rat) list \<Rightarrow> nat
    \<Rightarrow> CatEntity list \<Rightarrow> (rat \<times> rat) set \<Rightarrow> CatEntity list" where
  "placeCats config rnd g targetCatCount [] n cs occupied = cs"
| "placeCats config rnd g targetCatCount (cell # rest) n cs occupied =
     (if int (length cs) \<ge> targetCatCount then cs
      else if cell \<in> occupied then placeCats config rnd g targetCatCount rest n cs occupied
      else
        let directions = fisherYates (random rnd) n 3 [UP, DOWN, LEFT, RIGHT] in
        case find (\<lambda>dir. isValid (fst cell - fst (getDelta dir)) (snd cell - snd (getDelta dir)) g
                      \<and> (fst cell - fst (getDelta dir), snd cell - snd (getDelta dir)) \<notin> occupied)
               directions of
          None \<Rightarrow> placeCats config rnd g targetCatCount rest (n + 3) cs occupied
        | Some dir \<Rightarrow>
            let delta = getDelta dir;
                tailX = fst cell - fst delta;
                tailY = snd cell - snd delta;
                isBomb = (random rnd (n + 3) < bombChance config);
                availableSkins = jsSlice0 CAT_SKINS (skinCount config);
                skin = jsIndex availableSkins
                         \<lfloor>random rnd (n + 4) * of_nat (length availableSkins)\<rfloor>;
                oppositeDir = getOppositeDir dir;
                cat = \<lparr>cat_id = toId rnd (random rnd (n + 5)),
                       cat_x = tailX, cat_y = tailY,
                       direction = oppositeDir,
                       cat_type = (if isBomb then BOMB else NORMAL),
                       timer = (if isBomb then Some BOMB_TIME_SECONDS else None),
                       color = skin, isExited = False, isMoving = False\<rparr>
            in placeCats config rnd g targetCatCount rest (n + 6) (cs @ [cat])
                 (insert (tailX, tailY) (insert cell occupied)))"

text \<open>
  \<open>generateLevel\<close>. The first draw gives \<open>emptySlots\<close>. The cells are rearranged by the
  random sort, then sorted (stably) by their distance to \<open>(gridSize / 2, gridSize / 2)\<close>;
  the key is the squared distance, which orders the cells as \<open>Math.hypot\<close> does. The
  pieces are sorted by \<open>(y, x)\<close>, as the comparator \<open>(a.y - b.y) || (a.x - b.x)\<close> orders them.
\<close>

definition generateLevel :: "int \<Rightarrow> Randomness \<Rightarrow> LevelData" where
  "generateLevel levelNumber rnd =
     (let config = getLevelConfig levelNumber;
          g = cfg_size config;
          totalCells = g * g;
          maxEmpty = 10;
          minEmpty = 2;
          emptySlots = \<lfloor>random rnd 0 * of_int (maxEmpty - minEmpty + 1)\<rfloor> + minEmpty;
          targetCatCount = (totalCells - emptySlots) div 2;
          centerX = of_int g / 2;
          centerY = of_int g / 2;
          cells = sortCells rnd (allCells g);
          cells = sort_key (\<lambda>a. (fst a - centerX)\<^sup>2 + (snd a - centerY)\<^sup>2) cells;
          cs = placeCats config rnd g targetCatCount cells 1 [] {};
          cs = sort_key (\<lambda>a. (cat_y a, cat_x a)) cs
      in \<lparr>cats = cs, gridSize = g, level = levelNumber, unlockedMessage = unlockMsg config\<rparr>)"

section \<open>Shuffle (levelGenerator, shuffleCats)\<close>

text \<open>
  The scan \<open>for (const cell of allCells)\<close> for one piece; \<open>k\<close> counts the direction sorts
  made so far. The result is the re-homed piece with its two cells, or \<open>None\<close> when
  \<open>placed\<close> stays false.
\<close>

fun tryCells :: "Randomness \<Rightarrow> int \<Rightarrow> CatEntity \<Rightarrow> (rat \<times> rat) list \<Rightarrow> nat \<Rightarrow> (rat \<times> rat) set
    \<Rightarrow> (CatEntity \<times> (rat \<times> rat) \<times> (rat \<times> rat)) option \<times> nat" where
  "tryCells rnd g oldCat [] k occupied = (None, k)"
| "tryCells rnd g oldCat (cell # rest) k occupied =
     (if cell \<in> occupied then tryCells rnd g oldCat rest k occupied
      else
        case find (\<lambda>dir. isValid (fst cell - fst (getDelta dir)) (snd cell - snd (getDelta dir)) g
                      \<and> (fst cell - fst (getDelta dir), snd cell - snd (getDelta dir)) \<notin> occupied)
               (sortDirs rnd k) of
          None \<Rightarrow> tryCells rnd g oldCat rest (Suc k) occupied
        | Some dir \<Rightarrow>
            (Some (oldCat\<lparr>cat_x := fst cell, cat_y := snd cell, direction := dir,
                           isMoving := False\<rparr>,
                   cell,
                   (fst cell - fst (getDelta dir), snd cell - snd (getDelta dir))),
             Suc k))"

text \<open>The loop \<open>for (const oldCat of activeCats)\<close>; a piece that finds no place is left out.\<close>

fun shuffleLoop :: "Randomness \<Rightarrow> int \<Rightarrow> (rat \<times> rat) list \<Rightarrow> CatEntity list \<Rightarrow> nat
    \<Rightarrow> CatEntity list \<Rightarrow> (rat \<times> rat) set \<Rightarrow> CatEntity list" where
  "shuffleLoop rnd g cells [] k newActiveCats occupied = newActiveCats"
| "shuffleLoop rnd g cells (oldCat # rest) k newActiveCats occupied =
     (case tryCells rnd g oldCat cells k occupied of
        (None, k') \<Rightarrow> shuffleLoop rnd g cells rest k' newActiveCats occupied
      | (Some (newCat, cell, tail), k') \<Rightarrow>
          shuffleLoop rnd g cells rest k' (newActiveCats @ [newCat])
            (insert tail (insert cell occupied)))"

definition shuffleCats :: "CatEntity list \<Rightarrow> int \<Rightarrow> Randomness \<Rightarrow> CatEntity list" where
  "shuffleCats currentCats g rnd =
     (let activeCats = filter (\<lambda>c. \<not> isExited c) currentCats;
          exitedCats = filter isExited currentCats;
          cells = sortCells rnd (allCells g);
          newActiveCats = shuffleLoop rnd g cells activeCats 0 [] {};
          result = exitedCats @ newActiveCats
      in sort_key (\<lambda>a. (cat_y a, cat_x a)) result)"

section \<open>Move resolver (App.tsx, handleCatClick)\<close>

text \<open>The predicate given to \<open>cats.find\<close> in the raycast (lines 331-339).\<close>

definition isObstacle :: "string \<Rightarrow> rat \<Rightarrow> rat \<Rightarrow> CatEntity \<Rightarrow> bool" where
  "isObstacle cid nextX nextY c =
     (if cat_id c = cid \<or> isExited c then False
      else if jsRound (cat_x c) = nextX \<and> jsRound (cat_y c) = nextY then True
      else
        let tdx = fst (getDelta (direction c));
            tdy = snd (getDelta (direction c));
            tailX = cat_x c - tdx;
            tailY = cat_y c - tdy
        in if jsRound tailX = nextX \<and> jsRound tailY = nextY then True else False)"

text \<open>
  The raycast loop (lines 319-350) over the steps still to take; the last argument is
  \<open>(targetX, targetY, willExit)\<close>.
\<close>

fun raycast :: "CatEntity list \<Rightarrow> string \<Rightarrow> int \<Rightarrow> CatEntity \<Rightarrow> int list \<Rightarrow> rat \<times> rat \<times> bool
    \<Rightarrow> rat \<times> rat \<times> bool" where
  "raycast cs cid g cat [] target = target"
| "raycast cs cid g cat (step # steps) target =
     (let dx = fst (getDelta (direction cat));
          dy = snd (getDelta (direction cat));
          nextX = cat_x cat + dx * of_int step;
          nextY = cat_y cat + dy * of_int step
      in if nextX < 0 \<or> nextX \<ge> of_int g \<or> nextY < 0 \<or> nextY \<ge> of_int g
         then (nextX + dx * (of_int g * (5 / 2)), nextY + dy * (of_int g * (5 / 2)), True)
         else if find (isObstacle cid nextX nextY) cs \<noteq> None
         then (nextX - dx, nextY - dy, False)
         else raycast cs cid g cat steps (nextX, nextY, snd (snd target)))"

text \<open>\<open>findIndex\<close>, with \<open>None\<close> for \<open>-1\<close>.\<close>

fun findIndex :: "('a \<Rightarrow> bool) \<Rightarrow> 'a list \<Rightarrow> nat option" where
  "findIndex P [] = None"
| "findIndex P (a # as) = (if P a then Some 0 else map_option Suc (findIndex P as))"

text \<open>
  \<open>resolveMove\<close> is \<open>handleCatClick\<close> from the lookup of the piece on (lines 305-366),
  that is once the driver's guards (game state, animation, pause, tool) have let the click
  through. The result is the list given to \<open>setCats\<close>, or \<open>None\<close> when the handler returns
  without calling it (unknown id, exited piece, or a target equal to the head).
\<close>

definition resolveMove :: "string \<Rightarrow> CatEntity list \<Rightarrow> int \<Rightarrow> CatEntity list option" where
  "resolveMove cid cs g =
     (case findIndex (\<lambda>c. cat_id c = cid) cs of
        None \<Rightarrow> None
      | Some catIndex \<Rightarrow>
          let cat = cs ! catIndex in
          if isExited cat then None
          else
            case raycast cs cid g cat [1..g] (cat_x cat, cat_y cat, False) of
              (targetX, targetY, willExit) \<Rightarrow>
                if targetX = cat_x cat \<and> targetY = cat_y cat then None
                else Some (cs[catIndex := cat\<lparr>cat_x := targetX, cat_y := targetY,
                                               isExited := willExit, isMoving := True\<rparr>]))"

section \<open>Hint finder (App.tsx, the hint effect)\<close>

text \<open>The predicate given to \<open>activeCats.some\<close> (lines 196-204).\<close>

definition hintBlocked :: "CatEntity \<Rightarrow> rat \<Rightarrow> rat \<Rightarrow> CatEntity \<Rightarrow> bool" where
  "hintBlocked cat nx ny other =
     (if cat_id other = cat_id cat then False
      else if jsRound (cat_x other) = nx \<and> jsRound (cat_y other) = ny then True
      else
        let od = getDelta (direction other)
        in if jsRound (cat_x other - fst od) = nx \<and> jsRound (cat_y other - snd od) = ny
           then True else False)"

text \<open>The path simulation (lines 188-207) over the steps still to take.\<close>

fun hintRay :: "CatEntity list \<Rightarrow> int \<Rightarrow> CatEntity \<Rightarrow> int list \<Rightarrow> bool" where
  "hintRay activeCats g cat [] = False"
| "hintRay activeCats g cat (step # steps) =
     (let dx = fst (getDelta (direction cat));
          dy = snd (getDelta (direction cat));
          nx = cat_x cat + dx * of_int step;
          ny = cat_y cat + dy * of_int step
      in if nx < 0 \<or> nx \<ge> of_int g \<or> ny < 0 \<or> ny \<ge> of_int g then True
         else if list_ex (hintBlocked cat nx ny) activeCats then False
         else hintRay activeCats g cat steps)"

text \<open>\<open>findHint\<close> is \<open>validCat\<close> (lines 184-208); the hint shown is its id.\<close>

definition findHint :: "CatEntity list \<Rightarrow> int \<Rightarrow> CatEntity option" where
  "findHint cs g =
     (let activeCats = filter (\<lambda>c. \<not> isExited c) cs
      in find (\<lambda>cat. hintRay activeCats g cat [1..g]) activeCats)"

section \<open>Bomb tick (App.tsx, the timer effect)\<close>

text \<open>The function mapped over the pieces each second (lines 152-162).\<close>

definition tickCat :: "CatEntity \<Rightarrow> CatEntity" where
  "tickCat cat =
     (case timer cat of
        None \<Rightarrow> cat
      | Some t \<Rightarrow>
          if cat_type cat = BOMB \<and> \<not> isExited cat
          then (if t \<le> 0 then cat else cat\<lparr>timer := Some (t - 1)\<rparr>)
          else cat)"

text \<open>The new piece list and the flag \<open>gameOver\<close> (lines 148-166).\<close>

definition bombTick :: "CatEntity list \<Rightarrow> CatEntity list \<times> bool" where
  "bombTick currentCats =
     (let hasChanges = list_ex (\<lambda>cat. case timer cat of None \<Rightarrow> False
                          | Some t \<Rightarrow> cat_type cat = BOMB \<and> \<not> isExited cat \<and> \<not> t \<le> 0) currentCats;
          gameOver = list_ex (\<lambda>cat. case timer cat of None \<Rightarrow> False
                          | Some t \<Rightarrow> cat_type cat = BOMB \<and> \<not> isExited cat \<and> t \<le> 0) currentCats;
          nextCats = map tickCat currentCats
      in (if hasChanges then nextCats else currentCats, gameOver))"

section \<open>Vocabulary of the statements\<close>

text \<open>
  The candidate cell of the raycast at step \<open>s\<close>, and the test both loops make on it:
  a step is free when the candidate is inside the grid and no other active piece is found
  on it.
\<close>

definition stepX :: "CatEntity \<Rightarrow> int \<Rightarrow> rat" where
  "stepX cat s = cat_x cat + fst (getDelta (direction cat)) * of_int s"

definition stepY :: "CatEntity \<Rightarrow> int \<Rightarrow> rat" where
  "stepY cat s = cat_y cat + snd (getDelta (direction cat)) * of_int s"

definition freeStep :: "CatEntity list \<Rightarrow> string \<Rightarrow> int \<Rightarrow> CatEntity \<Rightarrow> int \<Rightarrow> bool" where
  "freeStep cs cid g cat s \<longleftrightarrow> isValid (stepX cat s) (stepY cat s) g
      \<and> find (isObstacle cid (stepX cat s) (stepY cat s)) cs = None"

text \<open>
  A ray exits when some step \<open>k\<close> of \<open>1..gridSize\<close> has its candidate outside the grid and
  every step before it is free: the boundary is reached with no obstruction on the way.
\<close>

definition rayExits :: "CatEntity list \<Rightarrow> int \<Rightarrow> CatEntity \<Rightarrow> bool" where
  "rayExits cs g c \<longleftrightarrow>
     list_ex (\<lambda>k. list_all (freeStep cs (cat_id c) g c) [1..k - 1]
                \<and> \<not> isValid (stepX c k) (stepY c k) g) [1..g]"

text \<open>What a shuffle must carry over: id, kind, timer, variant and exited flag.\<close>

definition frame :: "CatEntity \<Rightarrow> string \<times> CatType \<times> int option \<times> string option \<times> bool" where
  "frame c = (cat_id c, cat_type c, timer c, color c, isExited c)"


text \<open>
  The cells of a piece, and the cells held by the non-exited pieces of a list, piece after
  piece.
\<close>

definition cellsOf :: "CatEntity \<Rightarrow> (rat \<times> rat) list" where
  "cellsOf c = [headCell c, tailCell c]"

definition activeCells :: "CatEntity list \<Rightarrow> (rat \<times> rat) list" where
  "activeCells cs = concat (map cellsOf (filter (\<lambda>c. \<not> isExited c) cs))"

text \<open>The two parts of the board invariant, as the specification words them.\<close>

definition inBounds :: "int \<Rightarrow> CatEntity list \<Rightarrow> bool" where
  "inBounds g cs \<longleftrightarrow>
     (\<forall>c\<in>set cs. \<not> isExited c \<longrightarrow>
        isValid (fst (headCell c)) (snd (headCell c)) g
        \<and> isValid (fst (tailCell c)) (snd (tailCell c)) g)"

definition noOverlap :: "CatEntity list \<Rightarrow> bool" where
  "noOverlap cs \<longleftrightarrow>
     (\<forall>i<length cs. \<forall>j<length cs. i \<noteq> j \<longrightarrow> \<not> isExited (cs ! i) \<longrightarrow> \<not> isExited (cs ! j) \<longrightarrow>
        set (cellsOf (cs ! i)) \<inter> set (cellsOf (cs ! j)) = {})"

text \<open>
  What the operations keep whatever the ids: the cells of the active pieces are grid cells
  with integer coordinates.
\<close>

definition onGrid :: "int \<Rightarrow> CatEntity list \<Rightarrow> bool" where
  "onGrid g cs \<longleftrightarrow>
     (\<forall>p\<in>set (activeCells cs). isValid (fst p) (snd p) g \<and> fst p \<in> \<int> \<and> snd p \<in> \<int>)"

text \<open>
  What they keep while the ids are pairwise different: moreover no cell is held twice.
\<close>

definition wellPlaced :: "int \<Rightarrow> CatEntity list \<Rightarrow> bool" where
  "wellPlaced g cs \<longleftrightarrow>
     distinct (map cat_id cs)
     \<and> (\<forall>p\<in>set (activeCells cs). isValid (fst p) (snd p) g \<and> fst p \<in> \<int> \<and> snd p \<in> \<int>)
     \<and> distinct (activeCells cs)"

text \<open>
  The states of a level: \<open>generateLevel\<close>, then moves, shuffles, flips and bomb ticks in any
  order. A random sort returns a rearrangement of the cells; nothing is asked of the ids
  that \<open>genId\<close> draws.
\<close>

inductive reachable :: "CatEntity list \<Rightarrow> int \<Rightarrow> bool" where
  generated:
    "mset (sortCells rnd (allCells (cfg_size (getLevelConfig lvl))))
       = mset (allCells (cfg_size (getLevelConfig lvl))) \<Longrightarrow>
     reachable (cats (generateLevel lvl rnd)) (gridSize (generateLevel lvl rnd))"
| moved:
    "reachable cs g \<Longrightarrow> resolveMove cid cs g = Some cs' \<Longrightarrow> reachable cs' g"
| shuffled:
    "reachable cs g \<Longrightarrow> mset (sortCells rnd (allCells g)) = mset (allCells g) \<Longrightarrow>
     reachable (shuffleCats cs g rnd) g"
| flipped:
    "reachable cs g \<Longrightarrow> reachable (flipAll cs) g"
| ticked:
    "reachable cs g \<Longrightarrow> reachable (fst (bombTick cs)) g"

text \<open>
  Draws for an example: the \<open>n\<close>-th draw is \<open>1 / (n + 2)\<close>, rendered as \<open>n + 2\<close> letters, and
  the random sorts leave their argument as it is.
\<close>

definition exampleRandomness :: Randomness where
  "exampleRandomness =
     \<lparr>random = (\<lambda>n. 1 / (of_nat n + 2)),
      sortCells = (\<lambda>xs. xs),
      sortDirs = (\<lambda>k. [UP, DOWN, LEFT, RIGHT]),
      toId = (\<lambda>r. replicate (nat \<lfloor>1 / r\<rfloor>) CHR ''a'')\<rparr>"

text \<open>The invariant of the two placement loops: \<open>occupied\<close> covers the cells placed so far.\<close>

definition placedOk :: "int \<Rightarrow> CatEntity list \<Rightarrow> (rat \<times> rat) set \<Rightarrow> bool" where
  "placedOk g cs occ \<longleftrightarrow> set (activeCells cs) \<subseteq> occ \<and> distinct (activeCells cs)
     \<and> (\<forall>p\<in>set (activeCells cs). isValid (fst p) (snd p) g \<and> fst p \<in> \<int> \<and> snd p \<in> \<int>)"

text \<open>
  The cells of the 9 by 9 grid by distance to \<open>(4.5, 4.5)\<close>, cells at the same distance in
  row-major order; and the draws \<open>Math.random() = 8/9\<close> at every call, the random sorts
  leaving their argument as it is.
\<close>

definition centreOut9 :: "(rat \<times> rat) list" where
  "centreOut9 =
     [(4, 4), (5, 4), (4, 5), (5, 5), (4, 3), (5, 3), (3, 4), (6, 4), (3, 5), (6, 5), (4, 
     6), (5, 6), (3, 3), (6, 3), (3, 6), (6, 6), (4, 2), (5, 2), (2, 4), (7, 4), (2, 5), (7, 
     5), (4, 7), (5, 7), (3, 2), (6, 2), (2, 3), (7, 3), (2, 6), (7, 6), (3, 7), (6, 7), (4, 
     1), (5, 1), (2, 2), (7, 2), (1, 4), (8, 4), (1, 5), (8, 5), (2, 7), (7, 7), (4, 8), (5, 
     8), (3, 1), (6, 1), (1, 3), (8, 3), (1, 6), (8, 6), (3, 8), (6, 8), (2, 1), (7, 1), (1, 
     2), (8, 2), (1, 7), (8, 7), (2, 8), (7, 8), (4, 0), (5, 0), (0, 4), (0, 5), (3, 0), (6, 
     0), (0, 3), (0, 6), (1, 1), (8, 1), (1, 8), (8, 8), (2, 0), (7, 0), (0, 2), (0, 7), (1, 
     0), (8, 0), (0, 1), (0, 8), (0, 0)]"

definition eightNinths :: Randomness where
  "eightNinths =
     \<lparr>random = (\<lambda>n. 8 / 9),
      sortCells = (\<lambda>xs. xs),
      sortDirs = (\<lambda>k. [UP, DOWN, LEFT, RIGHT]),
      toId = (\<lambda>r. [])\<rparr>"

text \<open>
  A level with two equal ids. Draw \<open>n\<close> is \<open>8/9 + 1 / (9 (n + 2))\<close>, so the draws are
  pairwise different, but for draw 42, which repeats draw 6; both are draws of \<open>genId\<close>.
  An id is two letters for \<open>floor(1 / (9 draw - 8))\<close>, different for different draws.
  \<open>twinLevel\<close> is the level 5 these draws generate, \<open>piece\<close> being a normal piece of the
  third skin; the pieces 19 and 27 share the id \<open>AI\<close>.
\<close>

definition twinDraws :: Randomness where
  "twinDraws =
     \<lparr>random = (\<lambda>n. 8 / 9 + 1 / (9 * (of_nat (if n = 42 then 6 else n) + 2))),
      sortCells = (\<lambda>xs. xs),
      sortDirs = (\<lambda>k. [UP, DOWN, LEFT, RIGHT]),
      toId = (\<lambda>r. [''ABCDEFGHIJKLMNOP'' ! (nat \<lfloor>1 / (9 * r - 8)\<rfloor> div 16),
                  ''ABCDEFGHIJKLMNOP'' ! (nat \<lfloor>1 / (9 * r - 8)\<rfloor> mod 16)])\<rparr>"

definition piece :: "string \<Rightarrow> rat \<Rightarrow> rat \<Rightarrow> Direction \<Rightarrow> CatEntity" where
  "piece i px py d =
     \<lparr>cat_id = i, cat_x = px, cat_y = py, direction = d, cat_type = NORMAL, timer = None,
      color = Some ''bg-slate-400'', isExited = False, isMoving = False\<rparr>"

definition twinLevel :: "CatEntity list" where
  "twinLevel =
     [piece ''MC'' 2 0 UP, piece ''JC'' 3 0 UP, piece ''HE'' 4 0 UP, piece ''HK'' 5 0 UP,
      piece ''JI'' 6 0 UP, piece ''MI'' 7 0 UP, piece ''NE'' 0 2 UP, piece ''JO'' 1 2 UP,
      piece ''FM'' 2 2 UP, piece ''DI'' 3 2 UP, piece ''BE'' 4 2 UP, piece ''BK'' 5 2 UP,
      piece ''DO'' 6 2 UP, piece ''GC'' 7 2 UP, piece ''KE'' 8 2 UP, piece ''MO'' 0 5 DOWN,
      piece ''IA'' 1 5 DOWN, piece ''FA'' 2 5 DOWN, piece ''CA'' 3 5 DOWN,
      piece ''AI'' 4 5 DOWN, piece ''AO'' 5 5 DOWN, piece ''CG'' 6 5 DOWN,
      piece ''FG'' 7 5 DOWN, piece ''IG'' 8 5 DOWN, piece ''KK'' 1 7 DOWN,
      piece ''GI'' 2 7 DOWN, piece ''EE'' 3 7 DOWN, piece ''AI'' 4 7 DOWN,
      piece ''DC'' 5 7 DOWN, piece ''EK'' 6 7 DOWN, piece ''GO'' 7 7 DOWN,
      piece ''LA'' 8 7 DOWN, piece ''LG'' 2 8 LEFT, piece ''IM'' 5 8 RIGHT,
      piece ''LM'' 7 8 RIGHT]"

text \<open>The board after a click on \<open>AI\<close>: piece 19 has moved from \<open>(4, 5)\<close> to \<open>(4, 7)\<close>.\<close>

definition twinMoved :: "CatEntity list" where
  "twinMoved = twinLevel[19 := (piece ''AI'' 4 7 DOWN)\<lparr>isMoving := True\<rparr>]"

section \<open>Bulk flip: frame and involution\<close>

lemma flipCat_active:
  "\<not> isExited c \<Longrightarrow> flipCat c = c\<lparr>direction := getOppositeDir (direction c),
      cat_x := cat_x c - fst (getDelta (direction c)),
      cat_y := cat_y c - snd (getDelta (direction c))\<rparr>"
  by (cases "direction c") (simp_all add: flipCat_def)

lemma flipCat_exited: "isExited c \<Longrightarrow> flipCat c = c"
  by (simp add: flipCat_def)

lemma flipCat_isExited: "isExited (flipCat c) = isExited c"
  by (cases "isExited c") (simp_all add: flipCat_active flipCat_exited)

lemma flipCat_frame:
  "cat_id (flipCat c) = cat_id c" "cat_type (flipCat c) = cat_type c"
  "timer (flipCat c) = timer c" "color (flipCat c) = color c"
  "isMoving (flipCat c) = isMoving c"
  by (cases "isExited c"; simp add: flipCat_active flipCat_exited)+

lemma delta_opposite:
  "fst (getDelta (getOppositeDir d)) = - fst (getDelta d)"
  "snd (getDelta (getOppositeDir d)) = - snd (getDelta d)"
  by (cases d; simp)+

lemma opposite_opposite: "getOppositeDir (getOppositeDir d) = d"
  by (cases d) simp_all

lemma flipCat_flipCat: "flipCat (flipCat c) = c"
proof (cases "isExited c")
  case True
  then show ?thesis by (simp add: flipCat_exited)
next
  case False
  then have "\<not> isExited (flipCat c)" by (simp add: flipCat_isExited)
  then have "flipCat (flipCat c) = (flipCat c)\<lparr>direction := getOppositeDir (direction (flipCat c)),
      cat_x := cat_x (flipCat c) - fst (getDelta (direction (flipCat c))),
      cat_y := cat_y (flipCat c) - snd (getDelta (direction (flipCat c)))\<rparr>"
    by (rule flipCat_active)
  with False show ?thesis
    by (simp add: flipCat_active delta_opposite opposite_opposite)
qed

lemma filter_exited_flip: "filter isExited (map flipCat cs) = filter isExited cs"
  by (induction cs) (simp_all add: flipCat_isExited flipCat_exited)

lemma length_filter_active_flip:
  "length (filter (\<lambda>c. \<not> isExited c) (map flipCat cs)) = length (filter (\<lambda>c. \<not> isExited c) cs)"
  by (induction cs) (simp_all add: flipCat_isExited)

text \<open>
  C5. \<open>flipAll\<close> sends every non-exited piece to the piece with head
  \<open>old head - delta(old direction)\<close> and the opposite direction, and leaves an exited piece
  as it is; position by position it keeps the id, kind, timer, variant and exited flag;
  the exited pieces are the same pieces in the same order, and the number of active pieces
  is unchanged.
\<close>

theorem flipAll_frame:
  "flipAll cs = map (\<lambda>c. if isExited c then c
        else c\<lparr>direction := getOppositeDir (direction c),
               cat_x := cat_x c - fst (getDelta (direction c)),
               cat_y := cat_y c - snd (getDelta (direction c))\<rparr>) cs
   \<and> map cat_id (flipAll cs) = map cat_id cs
   \<and> map cat_type (flipAll cs) = map cat_type cs
   \<and> map timer (flipAll cs) = map timer cs
   \<and> map color (flipAll cs) = map color cs
   \<and> map isExited (flipAll cs) = map isExited cs
   \<and> filter isExited (flipAll cs) = filter isExited cs
   \<and> length (filter (\<lambda>c. \<not> isExited c) (flipAll cs)) = length (filter (\<lambda>c. \<not> isExited c) cs)"
proof -
  have "flipCat c = (if isExited c then c
        else c\<lparr>direction := getOppositeDir (direction c),
               cat_x := cat_x c - fst (getDelta (direction c)),
               cat_y := cat_y c - snd (getDelta (direction c))\<rparr>)" for c
    by (simp add: flipCat_active flipCat_exited)
  then have "flipAll cs = map (\<lambda>c. if isExited c then c
        else c\<lparr>direction := getOppositeDir (direction c),
               cat_x := cat_x c - fst (getDelta (direction c)),
               cat_y := cat_y c - snd (getDelta (direction c))\<rparr>) cs"
    by (simp add: flipAll_def)
  moreover have "map cat_id (flipAll cs) = map cat_id cs"
    by (simp add: flipAll_def flipCat_frame comp_def)
  moreover have "map cat_type (flipAll cs) = map cat_type cs"
    by (simp add: flipAll_def flipCat_frame comp_def)
  moreover have "map timer (flipAll cs) = map timer cs"
    by (simp add: flipAll_def flipCat_frame comp_def)
  moreover have "map color (flipAll cs) = map color cs"
    by (simp add: flipAll_def flipCat_frame comp_def)
  moreover have "map isExited (flipAll cs) = map isExited cs"
    by (simp add: flipAll_def flipCat_isExited comp_def)
  moreover have "filter isExited (flipAll cs) = filter isExited cs"
    unfolding flipAll_def by (rule filter_exited_flip)
  moreover have "length (filter (\<lambda>c. \<not> isExited c) (flipAll cs))
      = length (filter (\<lambda>c. \<not> isExited c) cs)"
    unfolding flipAll_def by (rule length_filter_active_flip)
  ultimately show ?thesis by blast
qed

text \<open>
  C10. \<open>flipAll\<close> is an involution: flipping twice gives back the piece list, every
  head and direction restored.
\<close>

theorem flipAll_involution: "flipAll (flipAll cs) = cs"
  by (simp add: flipAll_def flipCat_flipCat comp_def)

section \<open>Move resolver: exit and blocked first step\<close>

lemma jsRound_of_int: "jsRound (of_int k) = of_int k"
proof -
  have "\<lfloor>(1::rat) / 2\<rfloor> = 0" by (simp add: floor_eq_iff)
  then show ?thesis by (simp add: jsRound_def)
qed

lemma jsRound_Ints: "v \<in> \<int> \<Longrightarrow> jsRound v = v"
  by (auto simp: Ints_def jsRound_of_int)

lemma jsRound_numeral [simp]: "jsRound (numeral n) = numeral n" "jsRound 0 = 0" "jsRound 1 = 1"
  "jsRound (- numeral n) = - numeral n"
  by (simp_all add: jsRound_Ints)

lemma raycast_free:
  "list_all (freeStep cs cid g cat) ss \<Longrightarrow>
   raycast cs cid g cat ss tgt =
     (if ss = [] then tgt else (stepX cat (last ss), stepY cat (last ss), snd (snd tgt)))"
  by (induction ss arbitrary: tgt)
     (auto simp: freeStep_def isValid_def stepX_def stepY_def Let_def not_le not_less)

lemma raycast_exit:
  "list_all (freeStep cs cid g cat) pre \<Longrightarrow> \<not> isValid (stepX cat s) (stepY cat s) g \<Longrightarrow>
   raycast cs cid g cat (pre @ s # post) tgt =
     (stepX cat s + fst (getDelta (direction cat)) * (of_int g * (5 / 2)),
      stepY cat s + snd (getDelta (direction cat)) * (of_int g * (5 / 2)), True)"
  by (induction pre arbitrary: tgt)
     (auto simp: freeStep_def isValid_def stepX_def stepY_def Let_def not_le not_less)


lemma findIndex_Some:
  "findIndex P xs = Some i \<Longrightarrow> i < length xs \<and> P (xs ! i) \<and> (\<forall>j<i. \<not> P (xs ! j))"
proof (induction xs arbitrary: i)
  case Nil
  then show ?case by simp
next
  case (Cons a as)
  show ?case
  proof (cases "P a")
    case True
    with Cons.prems show ?thesis by simp
  next
    case False
    with Cons.prems obtain i' where i': "findIndex P as = Some i'" "i = Suc i'"
      by auto
    from Cons.IH[OF i'(1)] False i'(2) show ?thesis
      by (auto simp: less_Suc_eq_0_disj)
  qed
qed

lemma delta_nonzero: "fst (getDelta d) \<noteq> 0 \<or> snd (getDelta d) \<noteq> 0"
  by (cases d) simp_all

lemma delta_Ints: "fst (getDelta d) \<in> \<int>" "snd (getDelta d) \<in> \<int>"
  by (cases d; simp)+

lemma upto_split_at: "1 \<le> k \<Longrightarrow> k \<le> g \<Longrightarrow> [1..g] = [1..k - 1] @ k # [k + 1..g]"
  by (rule upto_split3) simp_all

text \<open>
  C3. When the candidate cell of the raycast at step \<open>k\<close> is outside the grid (the steps
  before it being free), the piece exits: \<open>setCats\<close> receives the list in which it has
  \<open>isExited = True\<close> and its head is the candidate cell moved on by \<open>gridSize * 2.5\<close>
  along the delta.
\<close>

theorem resolveMove_exit:
  assumes idx: "findIndex (\<lambda>c. cat_id c = cid) cs = Some i"
    and active: "\<not> isExited (cs ! i)"
    and k: "1 \<le> k" "k \<le> g"
    and free: "list_all (freeStep cs cid g (cs ! i)) [1..k - 1]"
    and out: "\<not> isValid (stepX (cs ! i) k) (stepY (cs ! i) k) g"
  shows "resolveMove cid cs g =
     Some (cs[i := (cs ! i)\<lparr>
        cat_x := stepX (cs ! i) k + fst (getDelta (direction (cs ! i))) * (of_int g * (5 / 2)),
        cat_y := stepY (cs ! i) k + snd (getDelta (direction (cs ! i))) * (of_int g * (5 / 2)),
        isExited := True, isMoving := True\<rparr>])"
proof -
  let ?cat = "cs ! i"
  let ?dx = "fst (getDelta (direction ?cat))"
  let ?dy = "snd (getDelta (direction ?cat))"
  have ray: "raycast cs cid g ?cat [1..g] (cat_x ?cat, cat_y ?cat, False) =
      (stepX ?cat k + ?dx * (of_int g * (5 / 2)), stepY ?cat k + ?dy * (of_int g * (5 / 2)), True)"
    unfolding upto_split_at[OF k] by (rule raycast_exit[OF free out])
  have pos: "(0::rat) < of_int k + of_int g * (5 / 2)"
    using k by (simp add: add_pos_pos)
  have "stepX ?cat k + ?dx * (of_int g * (5 / 2)) = cat_x ?cat + ?dx * (of_int k + of_int g * (5 / 2))"
       "stepY ?cat k + ?dy * (of_int g * (5 / 2)) = cat_y ?cat + ?dy * (of_int k + of_int g * (5 / 2))"
    by (simp_all add: stepX_def stepY_def algebra_simps)
  with pos delta_nonzero[of "direction ?cat"]
  have moved: "\<not> (stepX ?cat k + ?dx * (of_int g * (5 / 2)) = cat_x ?cat
           \<and> stepY ?cat k + ?dy * (of_int g * (5 / 2)) = cat_y ?cat)"
    by auto
  show ?thesis
    using idx active moved by (simp add: resolveMove_def ray Let_def)
qed

text \<open>
  The scenario of C3: grid 8, one piece at \<open>(4, 0)\<close> heading \<open>DOWN\<close>. It leaves at step 8
  and ends at \<open>y = 8 + 20\<close>, exited.
\<close>

theorem resolveMove_exit_scenario:
  "resolveMove ''a'' [\<lparr>cat_id = ''a'', cat_x = 4, cat_y = 0, direction = DOWN, cat_type = NORMAL,
       timer = None, color = Some ''bg-slate-100'', isExited = False, isMoving = False\<rparr>] 8
   = Some [\<lparr>cat_id = ''a'', cat_x = 4, cat_y = 28, direction = DOWN, cat_type = NORMAL,
       timer = None, color = Some ''bg-slate-100'', isExited = True, isMoving = True\<rparr>]"
  using resolveMove_exit[of "''a''" "[\<lparr>cat_id = ''a'', cat_x = 4, cat_y = 0, direction = DOWN,
       cat_type = NORMAL, timer = None, color = Some ''bg-slate-100'', isExited = False,
       isMoving = False\<rparr>]" 0 8 8]
  by (simp add: upto_rec1 freeStep_def stepX_def stepY_def isValid_def isObstacle_def)



section \<open>Hint finder and move resolver agree\<close>

lemma hintBlocked_iff_obstacle:
  "list_ex (hintBlocked cat nx ny) (filter (\<lambda>c. \<not> isExited c) cs)
     \<longleftrightarrow> find (isObstacle (cat_id cat) nx ny) cs \<noteq> None"
  by (auto simp: list_ex_iff find_None_iff hintBlocked_def isObstacle_def Let_def split: if_splits)

lemma hintRay_raycast:
  "hintRay (filter (\<lambda>c. \<not> isExited c) cs) g cat ss
     = snd (snd (raycast cs (cat_id cat) g cat ss (tx, ty, False)))"
  by (induction ss arbitrary: tx ty) (simp_all add: Let_def hintBlocked_iff_obstacle)

lemma raycast_willExit_upto:
  "snd (snd (raycast cs cid g cat [a..b] (tx, ty, False)))
     \<longleftrightarrow> (\<exists>k. a \<le> k \<and> k \<le> b \<and> (\<forall>s. a \<le> s \<and> s < k \<longrightarrow> freeStep cs cid g cat s)
              \<and> \<not> isValid (stepX cat k) (stepY cat k) g)"
proof (induction "nat (b + 1 - a)" arbitrary: a tx ty)
  case 0
  then have "[a..b] = []" by simp
  moreover from 0 have "\<not> (\<exists>k. a \<le> k \<and> k \<le> b)" by auto
  ultimately show ?case by auto
next
  case (Suc n)
  then have ab: "a \<le> b" and n: "n = nat (b + 1 - (a + 1))" by auto
  have up: "[a..b] = a # [a + 1..b]" using ab by (simp add: upto_rec1)
  let ?R = "\<lambda>a'. \<exists>k. a' \<le> k \<and> k \<le> b \<and> (\<forall>s. a' \<le> s \<and> s < k \<longrightarrow> freeStep cs cid g cat s)
              \<and> \<not> isValid (stepX cat k) (stepY cat k) g"
  show ?case
  proof (cases "isValid (stepX cat a) (stepY cat a) g")
    case False
    then have "snd (snd (raycast cs cid g cat [a..b] (tx, ty, False)))"
      unfolding up by (auto simp: Let_def isValid_def stepX_def stepY_def not_le not_less)
    moreover from False ab have "?R a" by (intro exI[of _ a]) auto
    ultimately show ?thesis by blast
  next
    case inside: True
    show ?thesis
    proof (cases "find (isObstacle cid (stepX cat a) (stepY cat a)) cs = None")
      case False
      with inside have "\<not> snd (snd (raycast cs cid g cat [a..b] (tx, ty, False)))"
        unfolding up by (auto simp: Let_def isValid_def stepX_def stepY_def not_le not_less)
      moreover have "\<not> ?R a"
      proof
        assume "?R a"
        then obtain k where k: "a \<le> k" "k \<le> b"
          "\<forall>s. a \<le> s \<and> s < k \<longrightarrow> freeStep cs cid g cat s"
          "\<not> isValid (stepX cat k) (stepY cat k) g" by blast
        from k(4) inside have "k \<noteq> a" by auto
        with k(1) have "a < k" by simp
        with k(3) have "freeStep cs cid g cat a" by simp
        with False show False by (simp add: freeStep_def)
      qed
      ultimately show ?thesis by blast
    next
      case True
      with inside have fr: "freeStep cs cid g cat a" by (simp add: freeStep_def)
      from inside True have "raycast cs cid g cat [a..b] (tx, ty, False)
          = raycast cs cid g cat [a + 1..b] (stepX cat a, stepY cat a, False)"
        unfolding up by (auto simp: Let_def isValid_def stepX_def stepY_def not_le not_less)
      then have "snd (snd (raycast cs cid g cat [a..b] (tx, ty, False))) \<longleftrightarrow> ?R (a + 1)"
        using Suc.hyps(1)[OF n] by simp
      moreover have "?R (a + 1) \<longleftrightarrow> ?R a"
      proof
        assume "?R (a + 1)"
        then obtain k where k: "a + 1 \<le> k" "k \<le> b"
          "\<forall>s. a + 1 \<le> s \<and> s < k \<longrightarrow> freeStep cs cid g cat s"
          "\<not> isValid (stepX cat k) (stepY cat k) g" by blast
        have "\<forall>s. a \<le> s \<and> s < k \<longrightarrow> freeStep cs cid g cat s"
        proof (intro allI impI)
          fix s assume s: "a \<le> s \<and> s < k"
          show "freeStep cs cid g cat s"
          proof (cases "s = a")
            case True
            with fr show ?thesis by simp
          next
            case False
            with s have "a + 1 \<le> s \<and> s < k" by simp
            with k(3) show ?thesis by blast
          qed
        qed
        with k show "?R a" by (intro exI[of _ k]) auto
      next
        assume "?R a"
        then obtain k where k: "a \<le> k" "k \<le> b"
          "\<forall>s. a \<le> s \<and> s < k \<longrightarrow> freeStep cs cid g cat s"
          "\<not> isValid (stepX cat k) (stepY cat k) g" by blast
        from k(4) inside have "k \<noteq> a" by auto
        with k(1) have "a + 1 \<le> k" by simp
        moreover from k(3) have "\<forall>s. a + 1 \<le> s \<and> s < k \<longrightarrow> freeStep cs cid g cat s" by simp
        ultimately show "?R (a + 1)" using k(2,4) by (intro exI[of _ k]) auto
      qed
      ultimately show ?thesis by blast
    qed
  qed
qed

lemma rayExits_iff:
  "rayExits cs g c \<longleftrightarrow> (\<exists>k. 1 \<le> k \<and> k \<le> g
      \<and> (\<forall>s. 1 \<le> s \<and> s < k \<longrightarrow> freeStep cs (cat_id c) g c s)
      \<and> \<not> isValid (stepX c k) (stepY c k) g)"
proof
  assume "rayExits cs g c"
  then show "\<exists>k. 1 \<le> k \<and> k \<le> g
      \<and> (\<forall>s. 1 \<le> s \<and> s < k \<longrightarrow> freeStep cs (cat_id c) g c s)
      \<and> \<not> isValid (stepX c k) (stepY c k) g"
    by (auto simp: rayExits_def list_ex_iff list_all_iff)
next
  assume "\<exists>k. 1 \<le> k \<and> k \<le> g
      \<and> (\<forall>s. 1 \<le> s \<and> s < k \<longrightarrow> freeStep cs (cat_id c) g c s)
      \<and> \<not> isValid (stepX c k) (stepY c k) g"
  then obtain k where k: "1 \<le> k" "k \<le> g"
      "\<forall>s. 1 \<le> s \<and> s < k \<longrightarrow> freeStep cs (cat_id c) g c s"
      "\<not> isValid (stepX c k) (stepY c k) g" by blast
  from k(3) have "\<forall>s\<in>{1..k - 1}. freeStep cs (cat_id c) g c s" by simp
  with k(1,2,4) show "rayExits cs g c"
    unfolding rayExits_def list_ex_iff list_all_iff by (intro bexI[of _ k]) simp_all
qed

lemma rayExits_raycast:
  "rayExits cs g c \<longleftrightarrow> snd (snd (raycast cs (cat_id c) g c [1..g] (cat_x c, cat_y c, False)))"
  by (simp add: rayExits_iff raycast_willExit_upto)

lemma findHint_rayExits: "findHint cs g = find (rayExits cs g) (filter (\<lambda>c. \<not> isExited c) cs)"
proof -
  have "hintRay (filter (\<lambda>c. \<not> isExited c) cs) g cat [1..g] = rayExits cs g cat" for cat
    by (simp add: rayExits_raycast hintRay_raycast[of cs g cat "[1..g]" "cat_x cat" "cat_y cat"])
  then show ?thesis by (simp add: findHint_def)
qed

text \<open>
  C7. \<open>findHint\<close> returns the first active piece, in list order, whose ray reaches the
  boundary with every step before it free, and \<open>None\<close> when there is none; and a ray
  reaches the boundary that way exactly when the raycast of the move resolver ends with
  \<open>willExit\<close>. So a piece whose raycast is stopped by another active piece is never the
  hint.
\<close>

theorem findHint_first_unobstructed:
  "findHint cs g = find (rayExits cs g) (filter (\<lambda>c. \<not> isExited c) cs)
   \<and> (\<forall>c. rayExits cs g c
          = snd (snd (raycast cs (cat_id c) g c [1..g] (cat_x c, cat_y c, False))))"
  using findHint_rayExits rayExits_raycast by blast

section \<open>Shuffle: frame, order and dropped pieces\<close>

lemma find_SomeD: "find P xs = Some a \<Longrightarrow> P a \<and> a \<in> set xs"
  by (induction xs) (auto split: if_splits)

lemma tryCells_SomeD:
  "tryCells rnd g old cells k occ = (Some (new, cell, tc), k') \<Longrightarrow>
   \<exists>dir. new = old\<lparr>cat_x := fst cell, cat_y := snd cell, direction := dir, isMoving := False\<rparr>
        \<and> tc = (fst cell - fst (getDelta dir), snd cell - snd (getDelta dir))
        \<and> cell \<in> set cells \<and> cell \<notin> occ \<and> tc \<notin> occ \<and> isValid (fst tc) (snd tc) g"
proof (induction cells arbitrary: k)
  case Nil
  then show ?case by simp
next
  case (Cons c rest)
  show ?case
  proof (cases "c \<in> occ")
    case True
    with Cons.prems have "tryCells rnd g old rest k occ = (Some (new, cell, tc), k')" by simp
    from Cons.IH[OF this] show ?thesis by auto
  next
    case False
    let ?P = "\<lambda>dir. isValid (fst c - fst (getDelta dir)) (snd c - snd (getDelta dir)) g
                      \<and> (fst c - fst (getDelta dir), snd c - snd (getDelta dir)) \<notin> occ"
    show ?thesis
    proof (cases "find ?P (sortDirs rnd k)")
      case None
      with False Cons.prems have "tryCells rnd g old rest (Suc k) occ = (Some (new, cell, tc), k')"
        by simp
      from Cons.IH[OF this] show ?thesis by auto
    next
      case (Some dir)
      from find_SomeD[OF Some] have "?P dir" by simp
      moreover from Some False Cons.prems
      have "new = old\<lparr>cat_x := fst c, cat_y := snd c, direction := dir, isMoving := False\<rparr>"
        "cell = c" "tc = (fst c - fst (getDelta dir), snd c - snd (getDelta dir))"
        by auto
      ultimately show ?thesis using False by (intro exI[of _ dir]) simp
    qed
  qed
qed

lemma tryCells_frame:
  "tryCells rnd g old cells k occ = (Some (new, cell, tc), k') \<Longrightarrow> frame new = frame old"
  by (drule tryCells_SomeD) (auto simp: frame_def)

lemma shuffleLoop_frames:
  "mset (map frame (shuffleLoop rnd g cells as k na occ))
     \<subseteq># mset (map frame na) + mset (map frame as)"
proof (induction as arbitrary: k na occ)
  case Nil
  then show ?case by simp
next
  case (Cons old rest)
  obtain res k' where t: "tryCells rnd g old cells k occ = (res, k')"
    by (cases "tryCells rnd g old cells k occ")
  show ?case
  proof (cases res)
    case None
    with t have eq: "shuffleLoop rnd g cells (old # rest) k na occ
        = shuffleLoop rnd g cells rest k' na occ"
      by simp
    have "mset (map frame na) + mset (map frame rest)
        \<subseteq># mset (map frame na) + mset (map frame (old # rest))"
      by simp
    with Cons.IH[of k' na occ]
    have "mset (map frame (shuffleLoop rnd g cells rest k' na occ))
        \<subseteq># mset (map frame na) + mset (map frame (old # rest))"
      by (rule subset_mset.order_trans)
    then show ?thesis by (simp only: eq)
  next
    case (Some r)
    obtain new cell tc where r: "r = (new, cell, tc)" by (cases r)
    from t Some r have eq: "shuffleLoop rnd g cells (old # rest) k na occ
        = shuffleLoop rnd g cells rest k' (na @ [new]) (insert tc (insert cell occ))"
      by simp
    from t Some r have "tryCells rnd g old cells k occ = (Some (new, cell, tc), k')" by simp
    then have "frame new = frame old" by (rule tryCells_frame)
    then have "mset (map frame (na @ [new])) + mset (map frame rest)
        = mset (map frame na) + mset (map frame (old # rest))"
      by simp
    with Cons.IH[of k' "na @ [new]" "insert tc (insert cell occ)"]
    have "mset (map frame (shuffleLoop rnd g cells rest k' (na @ [new]) (insert tc (insert cell occ))))
        \<subseteq># mset (map frame na) + mset (map frame (old # rest))"
      by (simp only:)
    then show ?thesis by (simp only: eq)
  qed
qed

lemma shuffleLoop_active:
  assumes "\<forall>c\<in>set as. \<not> isExited c"
  shows "\<forall>c\<in>set (shuffleLoop rnd g cells as k [] occ). \<not> isExited c"
proof
  fix c assume "c \<in> set (shuffleLoop rnd g cells as k [] occ)"
  then have "frame c \<in># mset (map frame (shuffleLoop rnd g cells as k [] occ))" by simp
  moreover have "set_mset (mset (map frame (shuffleLoop rnd g cells as k [] occ)))
      \<subseteq> set_mset (mset (map frame as))"
    using shuffleLoop_frames[of rnd g cells as k "[]" occ] by (intro set_mset_mono) simp
  ultimately have "frame c \<in># mset (map frame as)" by blast
  then obtain c' where "c' \<in> set as" "frame c' = frame c" by auto
  with assms show "\<not> isExited c" by (auto simp: frame_def)
qed

lemma shuffleLoop_filter_active:
  "\<forall>c\<in>set (shuffleLoop rnd g cells (filter (\<lambda>c. \<not> isExited c) cs) k [] occ). \<not> isExited c"
  by (rule shuffleLoop_active) simp

lemma filter_exited_shuffleLoop:
  "filter isExited (shuffleLoop rnd g cells (filter (\<lambda>c. \<not> isExited c) cs) k [] occ) = []"
  unfolding filter_empty_conv using shuffleLoop_filter_active by blast

lemma filter_active_shuffleLoop:
  "filter (\<lambda>c. \<not> isExited c) (shuffleLoop rnd g cells (filter (\<lambda>c. \<not> isExited c) cs) k [] occ)
     = shuffleLoop rnd g cells (filter (\<lambda>c. \<not> isExited c) cs) k [] occ"
  unfolding filter_id_conv using shuffleLoop_filter_active by blast


lemma shuffleCats_exited:
  "mset (filter isExited (shuffleCats cs g rnd)) = mset (filter isExited cs)"
proof -
  have "mset (filter isExited (shuffleCats cs g rnd))
      = mset (filter isExited (filter isExited cs
          @ shuffleLoop rnd g (sortCells rnd (allCells g)) (filter (\<lambda>c. \<not> isExited c) cs) 0 [] {}))"
    unfolding shuffleCats_def Let_def by (simp only: mset_filter mset_sort)
  then show ?thesis by (simp add: filter_exited_shuffleLoop del: mset_filter)
qed

lemma shuffleCats_active:
  "filter (\<lambda>c. \<not> isExited c) (shuffleCats cs g rnd)
     = sort_key (\<lambda>a. (cat_y a, cat_x a))
         (shuffleLoop rnd g (sortCells rnd (allCells g)) (filter (\<lambda>c. \<not> isExited c) cs) 0 [] {})"
proof -
  have "filter (\<lambda>c. \<not> isExited c) (filter isExited cs) = []"
    by (simp add: filter_empty_conv)
  then show ?thesis
    unfolding shuffleCats_def Let_def filter_sort filter_append
    by (simp only: filter_active_shuffleLoop append_Nil)
qed




text \<open>A piece that finds no place is left out: on a grid of one cell no tail fits.\<close>

lemma shuffleCats_drops_unplaceable:
  "shuffleCats [\<lparr>cat_id = ''a'', cat_x = 0, cat_y = 0, direction = UP, cat_type = NORMAL,
       timer = None, color = None, isExited = False, isMoving = False\<rparr>] 1
     \<lparr>random = (\<lambda>n. 0), sortCells = (\<lambda>xs. xs), sortDirs = (\<lambda>k. [UP, DOWN, LEFT, RIGHT]),
      toId = (\<lambda>r. [])\<rparr> = []"
  by (simp add: shuffleCats_def allCells_def isValid_def)

section \<open>Exit monotonicity\<close>

lemma find_obstacle_active:
  "find (isObstacle cid a b) (filter (\<lambda>c. \<not> isExited c) cs) = None
     \<longleftrightarrow> find (isObstacle cid a b) cs = None"
  by (auto simp: find_None_iff isObstacle_def)

lemma raycast_ignores_exited:
  "raycast (filter (\<lambda>c. \<not> isExited c) cs) cid g cat ss target = raycast cs cid g cat ss target"
  by (induction ss arbitrary: target) (simp_all add: Let_def find_obstacle_active)

lemma resolveMove_SomeD:
  assumes "resolveMove cid cs g = Some cs'"
  shows "\<exists>k tx ty w. findIndex (\<lambda>c. cat_id c = cid) cs = Some k \<and> \<not> isExited (cs ! k)
      \<and> raycast cs cid g (cs ! k) [1..g] (cat_x (cs ! k), cat_y (cs ! k), False) = (tx, ty, w)
      \<and> \<not> (tx = cat_x (cs ! k) \<and> ty = cat_y (cs ! k))
      \<and> cs' = cs[k := (cs ! k)\<lparr>cat_x := tx, cat_y := ty, isExited := w, isMoving := True\<rparr>]"
proof (cases "findIndex (\<lambda>c. cat_id c = cid) cs")
  case None
  with assms show ?thesis by (simp add: resolveMove_def)
next
  case (Some k)
  obtain tx ty w where r:
    "raycast cs cid g (cs ! k) [1..g] (cat_x (cs ! k), cat_y (cs ! k), False) = (tx, ty, w)"
    by (cases "raycast cs cid g (cs ! k) [1..g] (cat_x (cs ! k), cat_y (cs ! k), False)")
  from assms Some r have "\<not> isExited (cs ! k)"
    "\<not> (tx = cat_x (cs ! k) \<and> ty = cat_y (cs ! k))"
    "cs' = cs[k := (cs ! k)\<lparr>cat_x := tx, cat_y := ty, isExited := w, isMoving := True\<rparr>]"
    by (auto simp: resolveMove_def Let_def split: if_splits)
  with Some r show ?thesis by blast
qed

lemma tickCat_exited: "isExited c \<Longrightarrow> tickCat c = c"
  by (simp add: tickCat_def split: option.splits)

lemma shuffleCats_active_only:
  "filter (\<lambda>c. \<not> isExited c) (shuffleCats cs g rnd)
     = filter (\<lambda>c. \<not> isExited c) (shuffleCats (filter (\<lambda>c. \<not> isExited c) cs) g rnd)"
  by (simp add: shuffleCats_active)

lemma findHint_active: "findHint cs g = Some c \<Longrightarrow> \<not> isExited c"
  by (auto simp: findHint_def Let_def dest: find_SomeD)

text \<open>
  C8. An exited piece stays as it is. With piece \<open>i\<close> exited: a move, whoever is clicked,
  leaves position \<open>i\<close> untouched, and so do the flip and the bomb tick; a shuffle returns
  the piece unchanged among the same exited pieces; the raycast, the shuffle's placement
  of the active pieces and the hint give the same result with the exited pieces removed
  from the list, and the hint is never an exited piece.
\<close>

theorem exit_monotonicity:
  assumes i: "i < length cs" and ex: "isExited (cs ! i)"
  shows "(\<forall>cid cs'. resolveMove cid cs g = Some cs' \<longrightarrow> length cs' = length cs \<and> cs' ! i = cs ! i)
       \<and> flipAll cs ! i = cs ! i
       \<and> fst (bombTick cs) ! i = cs ! i
       \<and> (\<forall>rnd. cs ! i \<in> set (shuffleCats cs g rnd)
             \<and> mset (filter isExited (shuffleCats cs g rnd)) = mset (filter isExited cs)
             \<and> filter (\<lambda>c. \<not> isExited c) (shuffleCats cs g rnd)
                 = filter (\<lambda>c. \<not> isExited c) (shuffleCats (filter (\<lambda>c. \<not> isExited c) cs) g rnd))
       \<and> (\<forall>cid cat ss target. raycast cs cid g cat ss target
             = raycast (filter (\<lambda>c. \<not> isExited c) cs) cid g cat ss target)
       \<and> findHint cs g = findHint (filter (\<lambda>c. \<not> isExited c) cs) g
       \<and> (\<forall>c. findHint cs g = Some c \<longrightarrow> \<not> isExited c)"
proof -
  have mv: "\<forall>cid cs'. resolveMove cid cs g = Some cs' \<longrightarrow> length cs' = length cs \<and> cs' ! i = cs ! i"
  proof (intro allI impI)
    fix cid cs' assume "resolveMove cid cs g = Some cs'"
    then obtain k c' where k: "\<not> isExited (cs ! k)" "cs' = cs[k := c']"
      by (blast dest: resolveMove_SomeD)
    from k(1) ex have "k \<noteq> i" by auto
    with k(2) show "length cs' = length cs \<and> cs' ! i = cs ! i" by simp
  qed
  have fl: "flipAll cs ! i = cs ! i"
    using i ex by (simp add: flipAll_def flipCat_exited)
  have tk: "fst (bombTick cs) ! i = cs ! i"
    using i ex by (simp add: bombTick_def Let_def tickCat_exited)
  have sh: "\<forall>rnd. cs ! i \<in> set (shuffleCats cs g rnd)
             \<and> mset (filter isExited (shuffleCats cs g rnd)) = mset (filter isExited cs)
             \<and> filter (\<lambda>c. \<not> isExited c) (shuffleCats cs g rnd)
                 = filter (\<lambda>c. \<not> isExited c) (shuffleCats (filter (\<lambda>c. \<not> isExited c) cs) g rnd)"
  proof (intro allI conjI)
    fix rnd
    from i ex have "cs ! i \<in> set (filter isExited cs)" by simp
    then have "cs ! i \<in># mset (filter isExited (shuffleCats cs g rnd))"
      by (simp only: shuffleCats_exited set_mset_mset)
    then show "cs ! i \<in> set (shuffleCats cs g rnd)" by simp
    show "mset (filter isExited (shuffleCats cs g rnd)) = mset (filter isExited cs)"
      by (rule shuffleCats_exited)
    show "filter (\<lambda>c. \<not> isExited c) (shuffleCats cs g rnd)
        = filter (\<lambda>c. \<not> isExited c) (shuffleCats (filter (\<lambda>c. \<not> isExited c) cs) g rnd)"
      by (rule shuffleCats_active_only)
  qed
  have ry: "\<forall>cid cat ss target. raycast cs cid g cat ss target
             = raycast (filter (\<lambda>c. \<not> isExited c) cs) cid g cat ss target"
    by (simp add: raycast_ignores_exited)
  have hn: "findHint cs g = findHint (filter (\<lambda>c. \<not> isExited c) cs) g"
    by (simp add: findHint_def)
  have hx: "\<forall>c. findHint cs g = Some c \<longrightarrow> \<not> isExited c"
    by (auto dest: findHint_active)
  from mv fl tk sh ry hn hx show ?thesis by blast
qed

text \<open>An exited bomb piece alone on the board: the flip and the tick leave it as it is.\<close>

theorem exit_monotonicity_example:
  "flipAll [\<lparr>cat_id = ''e'', cat_x = 4, cat_y = 28, direction = DOWN, cat_type = BOMB,
        timer = Some 7, color = None, isExited = True, isMoving = True\<rparr>] ! 0
     = \<lparr>cat_id = ''e'', cat_x = 4, cat_y = 28, direction = DOWN, cat_type = BOMB,
        timer = Some 7, color = None, isExited = True, isMoving = True\<rparr>
   \<and> fst (bombTick [\<lparr>cat_id = ''e'', cat_x = 4, cat_y = 28, direction = DOWN, cat_type = BOMB,
        timer = Some 7, color = None, isExited = True, isMoving = True\<rparr>]) ! 0
     = \<lparr>cat_id = ''e'', cat_x = 4, cat_y = 28, direction = DOWN, cat_type = BOMB,
        timer = Some 7, color = None, isExited = True, isMoving = True\<rparr>"
  using exit_monotonicity[of 0 "[\<lparr>cat_id = ''e'', cat_x = 4, cat_y = 28, direction = DOWN,
        cat_type = BOMB, timer = Some 7, color = None, isExited = True, isMoving = True\<rparr>]" 8]
  by simp

section \<open>Level configuration\<close>

lemma placeCats_no_bomb:
  assumes "bombChance config \<le> 0" and "\<forall>n. 0 \<le> random rnd n"
  shows "\<forall>c\<in>set cs. cat_type c = NORMAL \<Longrightarrow>
     \<forall>c\<in>set (placeCats config rnd g target cells n cs occ). cat_type c = NORMAL"
proof (induction cells arbitrary: n cs occ)
  case Nil
  then show ?case by simp
next
  case (Cons cell rest)
  let ?P = "\<lambda>dir. isValid (fst cell - fst (getDelta dir)) (snd cell - snd (getDelta dir)) g
                \<and> (fst cell - fst (getDelta dir), snd cell - snd (getDelta dir)) \<notin> occ"
  show ?case
  proof (cases "int (length cs) \<ge> target \<or> cell \<in> occ")
    case True
    with Cons show ?thesis by auto
  next
    case False
    show ?thesis
    proof (cases "find ?P (fisherYates (random rnd) n 3 [UP, DOWN, LEFT, RIGHT])")
      case None
      with False Cons show ?thesis by (simp add: Let_def)
    next
      case (Some dir)
      have nb: "\<not> random rnd (n + 3) < bombChance config"
        using assms by (metis add.commute le_less_trans not_less_iff_gr_or_eq order.strict_trans2 not_le)
      let ?cat = "\<lparr>cat_id = toId rnd (random rnd (n + 5)),
                   cat_x = fst cell - fst (getDelta dir), cat_y = snd cell - snd (getDelta dir),
                   direction = getOppositeDir dir, cat_type = NORMAL, timer = None,
                   color = jsIndex (jsSlice0 CAT_SKINS (skinCount config))
                         \<lfloor>random rnd (n + 4) * of_nat (length (jsSlice0 CAT_SKINS (skinCount config)))\<rfloor>,
                   isExited = False, isMoving = False\<rparr>"
      from False Some nb have eq: "placeCats config rnd g target (cell # rest) n cs occ
          = placeCats config rnd g target rest (n + 6) (cs @ [?cat])
              (insert (fst cell - fst (getDelta dir), snd cell - snd (getDelta dir)) (insert cell occ))"
        by (simp add: Let_def)
      from Cons.prems have "\<forall>c\<in>set (cs @ [?cat]). cat_type c = NORMAL" by simp
      from Cons.IH[OF this] show ?thesis unfolding eq .
    qed
  qed
qed

text \<open>
  C9. The configuration is a step function of the level number: the grid size goes
  8, 9, 10, 11 at the levels 5, 10, 20; the palette has
  \<open>min(8, 2 + floor((level - 1) / 3))\<close> skins; the bomb chance goes 0, 0.05, 0.10, 0.15 at
  the levels 5, 15, 30; a message is attached exactly at the levels 1 and 5; and
  \<open>generateLevel\<close> passes the size and the message on. At level 1, whatever the draws
  (none is negative): grid 8, the level-1 message, no bomb piece.
\<close>

theorem level_config_steps:
  assumes "\<forall>n. 0 \<le> random rnd n"
  shows "cfg_size (getLevelConfig lvl)
           = (if lvl < 5 then 8 else if lvl < 10 then 9 else if lvl < 20 then 10 else 11)
       \<and> skinCount (getLevelConfig lvl) = min (int (length CAT_SKINS)) (2 + (lvl - 1) div 3)
       \<and> length CAT_SKINS = 8
       \<and> bombChance (getLevelConfig lvl)
           = (if lvl < 5 then 0 else if lvl < 15 then 5 / 100 else if lvl < 30 then 10 / 100
              else 15 / 100)
       \<and> (unlockMsg (getLevelConfig lvl) \<noteq> None \<longleftrightarrow> lvl = 1 \<or> lvl = 5)
       \<and> gridSize (generateLevel lvl rnd) = cfg_size (getLevelConfig lvl)
       \<and> unlockedMessage (generateLevel lvl rnd) = unlockMsg (getLevelConfig lvl)
       \<and> gridSize (generateLevel 1 rnd) = 8
       \<and> unlockedMessage (generateLevel 1 rnd) = Some ''Tap cats to clear!''
       \<and> filter (\<lambda>c. cat_type c = BOMB) (cats (generateLevel 1 rnd)) = []"
proof -
  have a: "cfg_size (getLevelConfig lvl)
           = (if lvl < 5 then 8 else if lvl < 10 then 9 else if lvl < 20 then 10 else 11)"
    by (simp add: getLevelConfig_def)
  have b: "skinCount (getLevelConfig lvl) = min (int (length CAT_SKINS)) (2 + (lvl - 1) div 3)"
    by (simp add: getLevelConfig_def)
  have c: "length CAT_SKINS = 8" by (simp add: CAT_SKINS_def)
  have d: "bombChance (getLevelConfig lvl)
           = (if lvl < 5 then 0 else if lvl < 15 then 5 / 100 else if lvl < 30 then 10 / 100
              else 15 / 100)"
    by (simp add: getLevelConfig_def)
  have e: "unlockMsg (getLevelConfig lvl) \<noteq> None \<longleftrightarrow> lvl = 1 \<or> lvl = 5"
    by (simp add: getLevelConfig_def)
  have f: "gridSize (generateLevel lvl rnd) = cfg_size (getLevelConfig lvl)"
    "unlockedMessage (generateLevel lvl rnd) = unlockMsg (getLevelConfig lvl)" for lvl
    by (simp_all add: generateLevel_def Let_def)
  have g: "gridSize (generateLevel 1 rnd) = 8"
    "unlockedMessage (generateLevel 1 rnd) = Some ''Tap cats to clear!''"
    by (simp_all add: f getLevelConfig_def)
  have "bombChance (getLevelConfig 1) \<le> 0" by (simp add: getLevelConfig_def)
  from placeCats_no_bomb[OF this assms, of "[]"]
  have "\<forall>c\<in>set (cats (generateLevel 1 rnd)). cat_type c = NORMAL"
    by (simp add: generateLevel_def Let_def)
  then have h: "filter (\<lambda>c. cat_type c = BOMB) (cats (generateLevel 1 rnd)) = []"
    by (simp add: filter_empty_conv)
  from a b c d e f g h show ?thesis by blast
qed

text \<open>Level 12, and level 1 with every draw \<open>1/2\<close>.\<close>

theorem level_config_steps_example:
  "cfg_size (getLevelConfig 12) = 10 \<and> skinCount (getLevelConfig 12) = 5
   \<and> bombChance (getLevelConfig 12) = 5 / 100 \<and> unlockMsg (getLevelConfig 12) = None
   \<and> filter (\<lambda>c. cat_type c = BOMB)
        (cats (generateLevel 1 \<lparr>random = (\<lambda>n. 1 / 2), sortCells = (\<lambda>xs. xs),
           sortDirs = (\<lambda>k. [UP, DOWN, LEFT, RIGHT]), toId = (\<lambda>r. [])\<rparr>)) = []"
  using level_config_steps[of "\<lparr>random = (\<lambda>n. 1 / 2), sortCells = (\<lambda>xs. xs),
           sortDirs = (\<lambda>k. [UP, DOWN, LEFT, RIGHT]), toId = (\<lambda>r. [])\<rparr>" 12]
  by (simp add: CAT_SKINS_def)

section \<open>The board invariant\<close>

subsection \<open>Cells of a piece list\<close>

lemma activeCells_Nil [simp]: "activeCells [] = []"
  by (simp add: activeCells_def)

lemma activeCells_Cons:
  "activeCells (c # cs) = (if isExited c then [] else cellsOf c) @ activeCells cs"
  by (simp add: activeCells_def)

lemma activeCells_append: "activeCells (xs @ ys) = activeCells xs @ activeCells ys"
  by (simp add: activeCells_def)

lemma cellsOf_subset_activeCells:
  "c \<in> set cs \<Longrightarrow> \<not> isExited c \<Longrightarrow> set (cellsOf c) \<subseteq> set (activeCells cs)"
  by (auto simp: activeCells_def)

lemma activeCells_member:
  "p \<in> set (activeCells cs) \<Longrightarrow> \<exists>c\<in>set cs. \<not> isExited c \<and> p \<in> set (cellsOf c)"
  by (auto simp: activeCells_def)

lemma mset_activeCells:
  "mset (activeCells cs)
     = sum_mset (image_mset (\<lambda>c. mset (cellsOf c)) (filter_mset (\<lambda>c. \<not> isExited c) (mset cs)))"
  by (induction cs) (simp_all add: activeCells_Cons)

lemma mset_activeCells_cong: "mset cs = mset cs' \<Longrightarrow> mset (activeCells cs) = mset (activeCells cs')"
  by (simp only: mset_activeCells)

lemma wellPlaced_cells_cong:
  assumes "wellPlaced g cs" and "distinct (map cat_id cs')"
    and "mset (activeCells cs') = mset (activeCells cs)"
  shows "wellPlaced g cs'"
proof -
  from assms(3) have "set (activeCells cs') = set (activeCells cs)" by (rule mset_eq_setD)
  moreover from assms(3) have "distinct (activeCells cs') = distinct (activeCells cs)"
    by (rule mset_eq_imp_distinct_iff)
  ultimately show ?thesis using assms(1,2) by (simp add: wellPlaced_def)
qed

lemma distinct_mset_sub:
  assumes "mset xs \<subseteq># mset ys" and "distinct ys"
  shows "distinct xs"
proof -
  have "count (mset xs) a \<le> 1" for a
  proof -
    from assms(1) have "count (mset xs) a \<le> count (mset ys) a" by (rule mset_subset_eq_count)
    also from assms(2) have "\<dots> \<le> 1" by (simp add: distinct_count_atmost_1)
    finally show ?thesis .
  qed
  then show ?thesis unfolding distinct_count_atmost_1
    by (metis count_mset_0_iff le_antisym linorder_not_le not_less_eq_eq not_less_zero One_nat_def le_0_eq le_SucE)
qed

lemma delta_not_zero: "getDelta d \<noteq> (0, 0)"
  by (cases d) simp_all

lemma head_neq_tail: "headCell c \<noteq> tailCell c"
  using delta_not_zero[of "direction c"]
  by (cases "getDelta (direction c)") (auto simp: headCell_def tailCell_def)

subsection \<open>The flip and the tick keep the cells\<close>

lemma cellsOf_flipCat: "\<not> isExited c \<Longrightarrow> cellsOf (flipCat c) = rev (cellsOf c)"
  by (simp add: flipCat_active cellsOf_def headCell_def tailCell_def delta_opposite)

lemma mset_activeCells_flip: "mset (activeCells (map flipCat cs)) = mset (activeCells cs)"
  by (induction cs) (simp_all add: activeCells_Cons flipCat_isExited cellsOf_flipCat)

lemma wellPlaced_flipAll: "wellPlaced g cs \<Longrightarrow> wellPlaced g (flipAll cs)"
proof (rule wellPlaced_cells_cong)
  assume w: "wellPlaced g cs"
  then show "wellPlaced g cs" .
  have "map cat_id (flipAll cs) = map cat_id cs"
    by (simp add: flipAll_def flipCat_frame comp_def)
  with w show "distinct (map cat_id (flipAll cs))" by (simp add: wellPlaced_def)
  show "mset (activeCells (flipAll cs)) = mset (activeCells cs)"
    unfolding flipAll_def by (rule mset_activeCells_flip)
qed

lemma tickCat_same:
  "cat_id (tickCat c) = cat_id c" "isExited (tickCat c) = isExited c"
  "cellsOf (tickCat c) = cellsOf c"
  by (simp_all add: tickCat_def cellsOf_def headCell_def tailCell_def split: option.splits)

lemma activeCells_tick: "activeCells (map tickCat cs) = activeCells cs"
  by (induction cs) (simp_all add: activeCells_Cons tickCat_same)

lemma wellPlaced_bombTick: "wellPlaced g cs \<Longrightarrow> wellPlaced g (fst (bombTick cs))"
proof -
  assume w: "wellPlaced g cs"
  have "map cat_id (map tickCat cs) = map cat_id cs" by (simp add: tickCat_same comp_def)
  with w have "wellPlaced g (map tickCat cs)"
    by (simp add: wellPlaced_def activeCells_tick del: map_map)
  with w show ?thesis by (simp add: bombTick_def Let_def)
qed

subsection \<open>The board invariant from the kept invariant\<close>

lemma wellPlaced_inBounds: "wellPlaced g cs \<Longrightarrow> inBounds g cs"
  unfolding inBounds_def
proof (intro ballI impI)
  fix c assume w: "wellPlaced g cs" and c: "c \<in> set cs" "\<not> isExited c"
  from c have "set (cellsOf c) \<subseteq> set (activeCells cs)" by (rule cellsOf_subset_activeCells)
  then have "headCell c \<in> set (activeCells cs)" "tailCell c \<in> set (activeCells cs)"
    by (simp_all add: cellsOf_def)
  with w show "isValid (fst (headCell c)) (snd (headCell c)) g
        \<and> isValid (fst (tailCell c)) (snd (tailCell c)) g"
    by (simp add: wellPlaced_def)
qed

lemma distinct_activeCells_disjoint:
  "distinct (activeCells cs) \<Longrightarrow> i < j \<Longrightarrow> j < length cs \<Longrightarrow>
   \<not> isExited (cs ! i) \<Longrightarrow> \<not> isExited (cs ! j) \<Longrightarrow>
   set (cellsOf (cs ! i)) \<inter> set (cellsOf (cs ! j)) = {}"
proof (induction cs arbitrary: i j)
  case Nil
  then show ?case by simp
next
  case (Cons c rest)
  from Cons.prems(2) obtain j' where j': "j = Suc j'" by (cases j) auto
  with Cons.prems(3) have j'len: "j' < length rest" by simp
  from Cons.prems(1) have dr: "distinct (activeCells rest)"
    by (simp add: activeCells_Cons split: if_splits)
  show ?case
  proof (cases i)
    case 0
    with Cons.prems(4) have act: "\<not> isExited c" by simp
    with Cons.prems(1) have "set (cellsOf c) \<inter> set (activeCells rest) = {}"
      by (simp add: activeCells_Cons)
    moreover from j' j'len Cons.prems(5) have "set (cellsOf (rest ! j')) \<subseteq> set (activeCells rest)"
      by (intro cellsOf_subset_activeCells) simp_all
    ultimately show ?thesis using 0 j' by auto
  next
    case (Suc i')
    with Cons.prems j' j'len have "set (cellsOf (rest ! i')) \<inter> set (cellsOf (rest ! j')) = {}"
      by (intro Cons.IH[OF dr]) simp_all
    with Suc j' show ?thesis by simp
  qed
qed

lemma wellPlaced_noOverlap: "wellPlaced g cs \<Longrightarrow> noOverlap cs"
  unfolding noOverlap_def
proof (intro allI impI)
  fix i j
  assume w: "wellPlaced g cs" and ij: "i < length cs" "j < length cs" "i \<noteq> j"
    and act: "\<not> isExited (cs ! i)" "\<not> isExited (cs ! j)"
  from w have d: "distinct (activeCells cs)" by (simp add: wellPlaced_def)
  show "set (cellsOf (cs ! i)) \<inter> set (cellsOf (cs ! j)) = {}"
  proof (cases "i < j")
    case True
    from distinct_activeCells_disjoint[OF d True ij(2) act] show ?thesis .
  next
    case False
    with ij(3) have "j < i" by simp
    from distinct_activeCells_disjoint[OF d this ij(1) act(2) act(1)] show ?thesis by blast
  qed
qed

subsection \<open>Generated levels\<close>

lemma allCells_valid:
  "p \<in> set (allCells g) \<Longrightarrow> isValid (fst p) (snd p) g \<and> fst p \<in> \<int> \<and> snd p \<in> \<int>"
  by (auto simp: allCells_def isValid_def)

lemma find_dir_valid:
  assumes "find (\<lambda>dir. isValid (fst cell - fst (getDelta dir)) (snd cell - snd (getDelta dir)) g
                      \<and> (fst cell - fst (getDelta dir), snd cell - snd (getDelta dir)) \<notin> occ) ds
           = Some dir"
  shows "isValid (fst cell - fst (getDelta dir)) (snd cell - snd (getDelta dir)) g"
    and "(fst cell - fst (getDelta dir), snd cell - snd (getDelta dir)) \<notin> occ"
  using find_SomeD[OF assms] by simp_all

lemma shifted_cell_neq:
  "(fst cell - fst (getDelta dir), snd cell - snd (getDelta dir)) \<noteq> cell"
  using delta_not_zero[of dir] by (cases cell; cases "getDelta dir") auto

lemma shifted_cell_Ints:
  "fst cell \<in> \<int> \<Longrightarrow> fst cell - fst (getDelta dir) \<in> \<int>"
  "snd cell \<in> \<int> \<Longrightarrow> snd cell - snd (getDelta dir) \<in> \<int>"
  by (simp_all add: delta_Ints)

lemma placeCats_step:
  assumes "\<not> target \<le> int (length cs)" and "cell \<notin> occ"
    and "find (\<lambda>dir. isValid (fst cell - fst (getDelta dir)) (snd cell - snd (getDelta dir)) g
                      \<and> (fst cell - fst (getDelta dir), snd cell - snd (getDelta dir)) \<notin> occ)
           (fisherYates (random rnd) n 3 [UP, DOWN, LEFT, RIGHT]) = Some dir"
  shows "\<exists>cat. cat_x cat = fst cell - fst (getDelta dir) \<and> cat_y cat = snd cell - snd (getDelta dir)
      \<and> direction cat = getOppositeDir dir \<and> \<not> isExited cat
      \<and> cat_id cat = toId rnd (random rnd (n + 5))
      \<and> (cat_type cat = BOMB \<longrightarrow> random rnd (n + 3) < bombChance config)
      \<and> placeCats config rnd g target (cell # rest) n cs occ
          = placeCats config rnd g target rest (n + 6) (cs @ [cat])
              (insert (fst cell - fst (getDelta dir), snd cell - snd (getDelta dir))
                 (insert cell occ))"
  using assms
  by (intro exI[of _ "\<lparr>cat_id = toId rnd (random rnd (n + 5)),
                   cat_x = fst cell - fst (getDelta dir), cat_y = snd cell - snd (getDelta dir),
                   direction = getOppositeDir dir,
                   cat_type = (if random rnd (n + 3) < bombChance config then BOMB else NORMAL),
                   timer = (if random rnd (n + 3) < bombChance config
                            then Some BOMB_TIME_SECONDS else None),
                   color = jsIndex (jsSlice0 CAT_SKINS (skinCount config))
                         \<lfloor>random rnd (n + 4) * of_nat (length (jsSlice0 CAT_SKINS (skinCount config)))\<rfloor>,
                   isExited = False, isMoving = False\<rparr>"])
     (simp add: Let_def)

lemma placedOk_add:
  assumes ok: "placedOk g cs occ"
    and act: "\<not> isExited c"
    and cells: "set (cellsOf c) = {p, q}" "p \<noteq> q" "p \<notin> occ" "q \<notin> occ"
    and valid: "isValid (fst p) (snd p) g" "fst p \<in> \<int>" "snd p \<in> \<int>"
      "isValid (fst q) (snd q) g" "fst q \<in> \<int>" "snd q \<in> \<int>"
  shows "placedOk g (cs @ [c]) (insert p (insert q occ))"
proof -
  have ac: "activeCells (cs @ [c]) = activeCells cs @ cellsOf c"
    using act by (simp add: activeCells_append activeCells_Cons)
  have d2: "distinct (cellsOf c)"
    using head_neq_tail[of c] by (simp add: cellsOf_def)
  from ok have sub: "set (activeCells cs) \<subseteq> occ" and d: "distinct (activeCells cs)"
    and v: "\<forall>p\<in>set (activeCells cs). isValid (fst p) (snd p) g \<and> fst p \<in> \<int> \<and> snd p \<in> \<int>"
    by (simp_all add: placedOk_def)
  from sub cells have disj: "set (activeCells cs) \<inter> set (cellsOf c) = {}" by auto
  show ?thesis
    unfolding placedOk_def ac
    using sub d v d2 disj cells valid by auto
qed

lemma placeCats_placedOk:
  assumes cells: "\<forall>p\<in>set cells. isValid (fst p) (snd p) g \<and> fst p \<in> \<int> \<and> snd p \<in> \<int>"
  shows "placedOk g cs occ \<Longrightarrow>
     \<exists>occ'. placedOk g (placeCats config rnd g target cells n cs occ) occ'"
  using cells
proof (induction cells arbitrary: n cs occ)
  case Nil
  then show ?case by auto
next
  case (Cons cell rest)
  let ?P = "\<lambda>dir. isValid (fst cell - fst (getDelta dir)) (snd cell - snd (getDelta dir)) g
                \<and> (fst cell - fst (getDelta dir), snd cell - snd (getDelta dir)) \<notin> occ"
  from Cons.prems(2) have rest: "\<forall>p\<in>set rest. isValid (fst p) (snd p) g \<and> fst p \<in> \<int> \<and> snd p \<in> \<int>"
    and cv: "isValid (fst cell) (snd cell) g" "fst cell \<in> \<int>" "snd cell \<in> \<int>"
    by simp_all
  show ?case
  proof (cases "int (length cs) \<ge> target")
    case True
    with Cons.prems(1) show ?thesis by auto
  next
    case nfull: False
    show ?thesis
    proof (cases "cell \<in> occ")
      case True
      with nfull Cons.IH[OF Cons.prems(1) rest] show ?thesis by simp
    next
      case free: False
      show ?thesis
      proof (cases "find ?P (fisherYates (random rnd) n 3 [UP, DOWN, LEFT, RIGHT])")
        case None
        with nfull free Cons.IH[OF Cons.prems(1) rest] show ?thesis by (simp add: Let_def)
      next
        case (Some dir)
        let ?t = "(fst cell - fst (getDelta dir), snd cell - snd (getDelta dir))"
        obtain cat where cat: "cat_x cat = fst ?t" "cat_y cat = snd ?t"
            "direction cat = getOppositeDir dir" "\<not> isExited cat"
          and eq: "placeCats config rnd g target (cell # rest) n cs occ
            = placeCats config rnd g target rest (n + 6) (cs @ [cat]) (insert ?t (insert cell occ))"
          using placeCats_step[OF nfull free Some, of config rest] by auto
        have tv: "isValid (fst ?t) (snd ?t) g" "?t \<notin> occ"
          using find_dir_valid[OF Some] by simp_all
        have "headCell cat = ?t" using cat by (simp add: headCell_def)
        moreover have "tailCell cat = cell"
          using cat by (cases cell) (simp add: tailCell_def delta_opposite)
        ultimately have cs2: "set (cellsOf cat) = {?t, cell}" by (simp add: cellsOf_def)
        have "placedOk g (cs @ [cat]) (insert ?t (insert cell occ))"
          using Cons.prems(1) cat(4) cs2 shifted_cell_neq tv(2) free tv(1) _ _ cv
        proof (rule placedOk_add)
          show "fst ?t \<in> \<int>" "snd ?t \<in> \<int>" using cv shifted_cell_Ints[of cell dir] by simp_all
        qed
        from Cons.IH[OF this rest] show ?thesis unfolding eq .
      qed
    qed
  qed
qed

lemma wellPlaced_generateLevel:
  assumes perm: "mset (sortCells rnd (allCells (cfg_size (getLevelConfig lvl))))
       = mset (allCells (cfg_size (getLevelConfig lvl)))"
    and ids: "distinct (map cat_id (cats (generateLevel lvl rnd)))"
  shows "wellPlaced (gridSize (generateLevel lvl rnd)) (cats (generateLevel lvl rnd))"
proof -
  let ?cfg = "getLevelConfig lvl"
  let ?g = "cfg_size ?cfg"
  let ?cells = "sort_key (\<lambda>a. (fst a - of_int ?g / 2)\<^sup>2 + (snd a - of_int ?g / 2)\<^sup>2)
                  (sortCells rnd (allCells ?g))"
  let ?target = "(?g * ?g - (\<lfloor>random rnd 0 * of_int (10 - 2 + 1)\<rfloor> + 2)) div 2"
  let ?placed = "placeCats ?cfg rnd ?g ?target ?cells 1 [] {}"
  have g: "gridSize (generateLevel lvl rnd) = ?g"
    by (simp add: generateLevel_def Let_def)
  have cs: "cats (generateLevel lvl rnd) = sort_key (\<lambda>a. (cat_y a, cat_x a)) ?placed"
    by (simp add: generateLevel_def Let_def)
  from perm have "set (sortCells rnd (allCells ?g)) = set (allCells ?g)" by (rule mset_eq_setD)
  then have "\<forall>p\<in>set ?cells. isValid (fst p) (snd p) ?g \<and> fst p \<in> \<int> \<and> snd p \<in> \<int>"
    using allCells_valid by simp
  moreover have "placedOk ?g [] {}" by (simp add: placedOk_def)
  ultimately obtain occ' where "placedOk ?g ?placed occ'"
    using placeCats_placedOk by blast
  then have ok: "distinct (activeCells ?placed)"
    "\<forall>p\<in>set (activeCells ?placed). isValid (fst p) (snd p) ?g \<and> fst p \<in> \<int> \<and> snd p \<in> \<int>"
    by (simp_all add: placedOk_def)
  have m: "mset (activeCells (cats (generateLevel lvl rnd))) = mset (activeCells ?placed)"
    unfolding cs by (rule mset_activeCells_cong) simp
  then have "set (activeCells (cats (generateLevel lvl rnd))) = set (activeCells ?placed)"
    by (rule mset_eq_setD)
  moreover from m have "distinct (activeCells (cats (generateLevel lvl rnd)))
      = distinct (activeCells ?placed)"
    by (rule mset_eq_imp_distinct_iff)
  ultimately show ?thesis
    unfolding wellPlaced_def g using ids ok by simp
qed

subsection \<open>Shuffled boards\<close>

lemma shuffleLoop_placedOk:
  assumes cells: "\<forall>p\<in>set cells. isValid (fst p) (snd p) g \<and> fst p \<in> \<int> \<and> snd p \<in> \<int>"
  shows "placedOk g na occ \<Longrightarrow> \<forall>c\<in>set as. \<not> isExited c \<Longrightarrow>
     \<exists>occ'. placedOk g (shuffleLoop rnd g cells as k na occ) occ'"
proof (induction as arbitrary: k na occ)
  case Nil
  then show ?case by auto
next
  case (Cons old rest)
  from Cons.prems(2) have act: "\<not> isExited old" and rest: "\<forall>c\<in>set rest. \<not> isExited c"
    by simp_all
  obtain res k' where t: "tryCells rnd g old cells k occ = (res, k')"
    by (cases "tryCells rnd g old cells k occ")
  show ?case
  proof (cases res)
    case None
    with t have "shuffleLoop rnd g cells (old # rest) k na occ
        = shuffleLoop rnd g cells rest k' na occ" by simp
    with Cons.IH[OF Cons.prems(1) rest] show ?thesis by simp
  next
    case (Some r)
    obtain new cell tc where r: "r = (new, cell, tc)" by (cases r)
    from t Some r have eq: "shuffleLoop rnd g cells (old # rest) k na occ
        = shuffleLoop rnd g cells rest k' (na @ [new]) (insert tc (insert cell occ))"
      by simp
    from t Some r have "tryCells rnd g old cells k occ = (Some (new, cell, tc), k')" by simp
    from tryCells_SomeD[OF this] obtain dir where
      new: "new = old\<lparr>cat_x := fst cell, cat_y := snd cell, direction := dir, isMoving := False\<rparr>"
      and tc: "tc = (fst cell - fst (getDelta dir), snd cell - snd (getDelta dir))"
      and cell: "cell \<in> set cells" "cell \<notin> occ" "tc \<notin> occ" "isValid (fst tc) (snd tc) g"
      by blast
    from cells cell(1) have cv: "isValid (fst cell) (snd cell) g" "fst cell \<in> \<int>" "snd cell \<in> \<int>"
      by simp_all
    have nact: "\<not> isExited new" using new act by simp
    have "headCell new = cell" using new by (simp add: headCell_def)
    moreover have "tailCell new = tc" using new tc by (simp add: tailCell_def)
    ultimately have cs2: "set (cellsOf new) = {tc, cell}" by (auto simp: cellsOf_def)
    have neq: "tc \<noteq> cell" unfolding tc by (rule shifted_cell_neq)
    have ti: "fst tc \<in> \<int>" "snd tc \<in> \<int>"
      using cv shifted_cell_Ints[of cell dir] by (simp_all add: tc)
    have "placedOk g (na @ [new]) (insert tc (insert cell occ))"
      using Cons.prems(1) nact cs2 neq cell(3) cell(2) cell(4) ti cv
      by (rule placedOk_add)
    from Cons.IH[OF this rest] show ?thesis unfolding eq .
  qed
qed

lemma activeCells_exited: "activeCells (filter isExited cs) = []"
  by (induction cs) (simp_all add: activeCells_Cons)

lemma mset_ids_frames: "mset (map cat_id xs) = image_mset fst (mset (map frame xs))"
  by (induction xs) (simp_all add: frame_def)

lemma shuffleCats_ids:
  assumes "distinct (map cat_id cs)"
  shows "distinct (map cat_id (shuffleCats cs g rnd))"
proof -
  let ?act = "filter (\<lambda>c. \<not> isExited c) cs"
  let ?loop = "shuffleLoop rnd g (sortCells rnd (allCells g)) ?act 0 [] {}"
  have "mset (map frame ?loop) \<subseteq># mset (map frame ?act)"
    using shuffleLoop_frames[of rnd g "sortCells rnd (allCells g)" ?act 0 "[]" "{}"] by simp
  then have "image_mset fst (mset (map frame ?loop)) \<subseteq># image_mset fst (mset (map frame ?act))"
    by (rule image_mset_subseteq_mono)
  then have sub: "mset (map cat_id ?loop) \<subseteq># mset (map cat_id ?act)"
    by (simp only: mset_ids_frames)
  have "mset (map cat_id (shuffleCats cs g rnd))
      = mset (map cat_id (filter isExited cs)) + mset (map cat_id ?loop)"
    unfolding shuffleCats_def Let_def by (simp only: mset_map mset_sort mset_append image_mset_union)
  also have "\<dots> \<subseteq># mset (map cat_id (filter isExited cs)) + mset (map cat_id ?act)"
    using sub by (rule subset_mset.add_left_mono)
  also have "mset (map cat_id (filter isExited cs)) + mset (map cat_id ?act) = mset (map cat_id cs)"
    by (induction cs) simp_all
  finally show ?thesis using assms by (rule distinct_mset_sub)
qed

lemma wellPlaced_shuffleCats:
  assumes w: "wellPlaced g cs"
    and perm: "mset (sortCells rnd (allCells g)) = mset (allCells g)"
  shows "wellPlaced g (shuffleCats cs g rnd)"
proof -
  let ?act = "filter (\<lambda>c. \<not> isExited c) cs"
  let ?loop = "shuffleLoop rnd g (sortCells rnd (allCells g)) ?act 0 [] {}"
  from perm have "set (sortCells rnd (allCells g)) = set (allCells g)" by (rule mset_eq_setD)
  then have "\<forall>p\<in>set (sortCells rnd (allCells g)). isValid (fst p) (snd p) g \<and> fst p \<in> \<int> \<and> snd p \<in> \<int>"
    using allCells_valid by simp
  moreover have "placedOk g [] {}" by (simp add: placedOk_def)
  moreover have "\<forall>c\<in>set ?act. \<not> isExited c" by simp
  ultimately obtain occ' where "placedOk g ?loop occ'"
    using shuffleLoop_placedOk by blast
  then have ok: "distinct (activeCells ?loop)"
    "\<forall>p\<in>set (activeCells ?loop). isValid (fst p) (snd p) g \<and> fst p \<in> \<int> \<and> snd p \<in> \<int>"
    by (simp_all add: placedOk_def)
  have "mset (activeCells (shuffleCats cs g rnd)) = mset (activeCells (filter isExited cs @ ?loop))"
    unfolding shuffleCats_def Let_def by (rule mset_activeCells_cong) simp
  then have m: "mset (activeCells (shuffleCats cs g rnd)) = mset (activeCells ?loop)"
    by (simp add: activeCells_append activeCells_exited)
  then have "set (activeCells (shuffleCats cs g rnd)) = set (activeCells ?loop)"
    by (rule mset_eq_setD)
  moreover from m have "distinct (activeCells (shuffleCats cs g rnd)) = distinct (activeCells ?loop)"
    by (rule mset_eq_imp_distinct_iff)
  moreover from w have "distinct (map cat_id (shuffleCats cs g rnd))"
    by (intro shuffleCats_ids) (simp add: wellPlaced_def)
  ultimately show ?thesis
    unfolding wellPlaced_def using ok by simp
qed

subsection \<open>Moves\<close>

lemma step_pred:
  "stepX cat a - fst (getDelta (direction cat)) = stepX cat (a - 1)"
  "stepY cat a - snd (getDelta (direction cat)) = stepY cat (a - 1)"
  by (simp_all add: stepX_def stepY_def algebra_simps)

lemma step_zero: "stepX cat 0 = cat_x cat" "stepY cat 0 = cat_y cat"
  by (simp_all add: stepX_def stepY_def)

lemma raycast_stays:
  "raycast cs cid g cat [a..b] (stepX cat (a - 1), stepY cat (a - 1), False) = (tx, ty, False) \<Longrightarrow>
   \<exists>m. a - 1 \<le> m \<and> tx = stepX cat m \<and> ty = stepY cat m
      \<and> (\<forall>s. a \<le> s \<and> s \<le> m \<longrightarrow> freeStep cs cid g cat s)"
proof (induction "nat (b + 1 - a)" arbitrary: a)
  case 0
  then have "[a..b] = []" by simp
  with 0(2) have "tx = stepX cat (a - 1)" "ty = stepY cat (a - 1)" by simp_all
  then show ?case by (intro exI[of _ "a - 1"]) auto
next
  case (Suc n)
  then have ab: "a \<le> b" and n: "n = nat (b + 1 - (a + 1))" by auto
  have up: "[a..b] = a # [a + 1..b]" using ab by (simp add: upto_rec1)
  show ?case
  proof (cases "isValid (stepX cat a) (stepY cat a) g")
    case False
    then have "snd (snd (raycast cs cid g cat [a..b] (stepX cat (a - 1), stepY cat (a - 1), False)))"
      unfolding up by (auto simp: Let_def isValid_def stepX_def stepY_def not_le not_less)
    with Suc.prems show ?thesis by simp
  next
    case inside: True
    show ?thesis
    proof (cases "find (isObstacle cid (stepX cat a) (stepY cat a)) cs = None")
      case False
      with inside have "raycast cs cid g cat [a..b] (stepX cat (a - 1), stepY cat (a - 1), False)
          = (stepX cat a - fst (getDelta (direction cat)), stepY cat a - snd (getDelta (direction cat)), False)"
        unfolding up by (auto simp: Let_def isValid_def stepX_def stepY_def not_le not_less)
      with Suc.prems have "tx = stepX cat (a - 1)" "ty = stepY cat (a - 1)"
        by (simp_all add: step_pred)
      then show ?thesis by (intro exI[of _ "a - 1"]) auto
    next
      case True
      with inside have fr: "freeStep cs cid g cat a" by (simp add: freeStep_def)
      from inside True have "raycast cs cid g cat [a..b] (stepX cat (a - 1), stepY cat (a - 1), False)
          = raycast cs cid g cat [a + 1..b] (stepX cat (a + 1 - 1), stepY cat (a + 1 - 1), False)"
        unfolding up by (auto simp: Let_def isValid_def stepX_def stepY_def not_le not_less)
      with Suc.prems have "raycast cs cid g cat [a + 1..b]
          (stepX cat (a + 1 - 1), stepY cat (a + 1 - 1), False) = (tx, ty, False)"
        by simp
      from Suc.hyps(1)[OF n this] obtain m where m: "a + 1 - 1 \<le> m" "tx = stepX cat m"
        "ty = stepY cat m" "\<forall>s. a + 1 \<le> s \<and> s \<le> m \<longrightarrow> freeStep cs cid g cat s"
        by blast
      have "\<forall>s. a \<le> s \<and> s \<le> m \<longrightarrow> freeStep cs cid g cat s"
      proof (intro allI impI)
        fix s assume s: "a \<le> s \<and> s \<le> m"
        show "freeStep cs cid g cat s"
        proof (cases "s = a")
          case True
          with fr show ?thesis by simp
        next
          case False
          with s have "a + 1 \<le> s \<and> s \<le> m" by simp
          with m(4) show ?thesis by blast
        qed
      qed
      with m show ?thesis by (intro exI[of _ m]) simp
    qed
  qed
qed

lemma free_cell_not_held:
  assumes free: "find (isObstacle cid px py) cs = None"
    and ints: "\<forall>p\<in>set (activeCells cs). fst p \<in> \<int> \<and> snd p \<in> \<int>"
    and xs: "\<forall>c\<in>set xs. c \<in> set cs \<and> cat_id c \<noteq> cid"
  shows "(px, py) \<notin> set (activeCells xs)"
proof
  assume "(px, py) \<in> set (activeCells xs)"
  then obtain c where c: "c \<in> set xs" "\<not> isExited c" "(px, py) \<in> set (cellsOf c)"
    by (auto dest: activeCells_member)
  with xs have ccs: "c \<in> set cs" and cid: "cat_id c \<noteq> cid" by simp_all
  from ccs c(2) have "set (cellsOf c) \<subseteq> set (activeCells cs)" by (rule cellsOf_subset_activeCells)
  with ints have hi: "cat_x c \<in> \<int>" "cat_y c \<in> \<int>"
    and ti: "cat_x c - fst (getDelta (direction c)) \<in> \<int>" "cat_y c - snd (getDelta (direction c)) \<in> \<int>"
    by (auto simp: cellsOf_def headCell_def tailCell_def)
  from c(3) have "isObstacle cid px py c"
    using cid c(2) hi ti
    by (auto simp: isObstacle_def cellsOf_def headCell_def tailCell_def jsRound_Ints Let_def)
  with ccs free show False by (auto simp: find_None_iff)
qed

lemma step_Ints:
  "cat_x cat \<in> \<int> \<Longrightarrow> stepX cat m \<in> \<int>" "cat_y cat \<in> \<int> \<Longrightarrow> stepY cat m \<in> \<int>"
  by (simp_all add: stepX_def stepY_def delta_Ints)

lemma step_moved:
  "m \<noteq> 0 \<Longrightarrow> \<not> (stepX cat m = cat_x cat \<and> stepY cat m = cat_y cat)"
  using delta_nonzero[of "direction cat"] by (auto simp: stepX_def stepY_def)

lemma wellPlaced_resolveMove:
  assumes w: "wellPlaced g cs" and mv: "resolveMove cid cs g = Some cs'"
  shows "wellPlaced g cs'"
proof -
  from resolveMove_SomeD[OF mv] obtain k tx ty wx where
    idx: "findIndex (\<lambda>c. cat_id c = cid) cs = Some k" and act: "\<not> isExited (cs ! k)"
    and ray: "raycast cs cid g (cs ! k) [1..g] (cat_x (cs ! k), cat_y (cs ! k), False) = (tx, ty, wx)"
    and moved: "\<not> (tx = cat_x (cs ! k) \<and> ty = cat_y (cs ! k))"
    and cs': "cs' = cs[k := (cs ! k)\<lparr>cat_x := tx, cat_y := ty, isExited := wx, isMoving := True\<rparr>]"
    by blast
  let ?cat = "cs ! k"
  let ?new = "?cat\<lparr>cat_x := tx, cat_y := ty, isExited := wx, isMoving := True\<rparr>"
  let ?pre = "take k cs"
  let ?post = "drop (Suc k) cs"
  from findIndex_Some[OF idx] have klen: "k < length cs" and kid: "cat_id ?cat = cid" by simp_all
  have split: "cs = ?pre @ ?cat # ?post" using klen by (rule id_take_nth_drop)
  have split': "cs' = ?pre @ ?new # ?post" unfolding cs' using klen by (rule upd_conv_take_nth_drop)
  from w have dids: "distinct (map cat_id cs)" and dcells: "distinct (activeCells cs)"
    and valid: "\<forall>p\<in>set (activeCells cs). isValid (fst p) (snd p) g \<and> fst p \<in> \<int> \<and> snd p \<in> \<int>"
    by (simp_all add: wellPlaced_def)
  have ids: "map cat_id cs' = map cat_id cs"
  proof -
    have "map cat_id cs' = (map cat_id cs)[k := cat_id ?cat]"
      unfolding cs' by (simp add: map_update)
    also have "\<dots> = map cat_id cs" using klen by (simp add: list_update_same_conv)
    finally show ?thesis .
  qed
  have ac: "activeCells cs = activeCells ?pre @ cellsOf ?cat @ activeCells ?post"
    using act by (subst split) (simp add: activeCells_append activeCells_Cons)
  have ac': "activeCells cs' = activeCells ?pre @ (if wx then [] else cellsOf ?new) @ activeCells ?post"
    unfolding split' by (simp add: activeCells_append activeCells_Cons)
  from dcells have dpp: "distinct (activeCells ?pre)" "distinct (activeCells ?post)"
    "set (activeCells ?pre) \<inter> set (activeCells ?post) = {}"
    "set (cellsOf ?cat) \<inter> (set (activeCells ?pre) \<union> set (activeCells ?post)) = {}"
    unfolding ac by auto
  from valid have vpp: "\<forall>p\<in>set (activeCells ?pre) \<union> set (activeCells ?post).
      isValid (fst p) (snd p) g \<and> fst p \<in> \<int> \<and> snd p \<in> \<int>"
    and vcat: "\<forall>p\<in>set (cellsOf ?cat). isValid (fst p) (snd p) g \<and> fst p \<in> \<int> \<and> snd p \<in> \<int>"
    unfolding ac by auto
  show ?thesis
  proof (cases wx)
    case True
    with ac' have "activeCells cs' = activeCells ?pre @ activeCells ?post" by simp
    with dpp vpp dids ids show ?thesis by (auto simp: wellPlaced_def)
  next
    case False
    from vcat have hv: "isValid (cat_x ?cat) (cat_y ?cat) g" "cat_x ?cat \<in> \<int>" "cat_y ?cat \<in> \<int>"
      by (simp_all add: cellsOf_def headCell_def)
    from ray False have "raycast cs cid g ?cat [1..g] (stepX ?cat (1 - 1), stepY ?cat (1 - 1), False)
        = (tx, ty, False)" by (simp add: step_zero)
    from raycast_stays[OF this] obtain m where m: "0 \<le> m" "tx = stepX ?cat m" "ty = stepY ?cat m"
      "\<forall>s. 1 \<le> s \<and> s \<le> m \<longrightarrow> freeStep cs cid g ?cat s"
      by auto
    from moved m(2,3) have "m \<noteq> 0" by (auto simp: step_zero)
    with m(1) have m1: "1 \<le> m" by simp
    have others: "\<forall>c\<in>set (?pre @ ?post). c \<in> set cs \<and> cat_id c \<noteq> cid"
    proof
      fix c assume c: "c \<in> set (?pre @ ?post)"
      then have "c \<in> set cs" by (auto dest: in_set_takeD in_set_dropD)
      moreover have "cat_id c \<noteq> cid"
      proof
        assume eq: "cat_id c = cid"
        from c have "cat_id c \<in> cat_id ` (set ?pre \<union> set ?post)" by simp
        with eq kid have "cat_id ?cat \<in> cat_id ` (set ?pre \<union> set ?post)" by simp
        moreover from dids have "distinct (map cat_id (?pre @ ?cat # ?post))"
          using split by simp
        ultimately show False by auto
      qed
      ultimately show "c \<in> set cs \<and> cat_id c \<noteq> cid" ..
    qed
    have ints: "\<forall>p\<in>set (activeCells cs). fst p \<in> \<int> \<and> snd p \<in> \<int>" using valid by simp
    have free_out: "(stepX ?cat s, stepY ?cat s) \<notin> set (activeCells ?pre) \<union> set (activeCells ?post)"
      and free_in: "isValid (stepX ?cat s) (stepY ?cat s) g"
      if "1 \<le> s" "s \<le> m" for s
    proof -
      from m(4) that have fs: "freeStep cs cid g ?cat s" by simp
      then show "isValid (stepX ?cat s) (stepY ?cat s) g" by (simp add: freeStep_def)
      from fs have "find (isObstacle cid (stepX ?cat s) (stepY ?cat s)) cs = None"
        by (simp add: freeStep_def)
      from free_cell_not_held[OF this ints others]
      show "(stepX ?cat s, stepY ?cat s) \<notin> set (activeCells ?pre) \<union> set (activeCells ?post)"
        by (simp add: activeCells_append)
    qed
    have hd: "headCell ?new = (stepX ?cat m, stepY ?cat m)"
      using m by (simp add: headCell_def)
    have tl': "tailCell ?new = (stepX ?cat (m - 1), stepY ?cat (m - 1))"
      using m by (simp add: tailCell_def step_pred)
    have hd_ok: "headCell ?new \<notin> set (activeCells ?pre) \<union> set (activeCells ?post)"
      "isValid (fst (headCell ?new)) (snd (headCell ?new)) g"
      unfolding hd using free_out[of m] free_in[of m] m1 by simp_all
    have tl_ok: "tailCell ?new \<notin> set (activeCells ?pre) \<union> set (activeCells ?post)
        \<and> isValid (fst (tailCell ?new)) (snd (tailCell ?new)) g"
    proof (cases "m = 1")
      case True
      then have "tailCell ?new = headCell ?cat"
        unfolding tl' by (simp add: step_zero headCell_def)
      with dpp(4) hv show ?thesis by (auto simp: cellsOf_def headCell_def)
    next
      case False
      with m1 have "1 \<le> m - 1" "m - 1 \<le> m" by simp_all
      from free_out[OF this] free_in[OF this] show ?thesis unfolding tl' by simp
    qed
    have cint: "fst (headCell ?new) \<in> \<int>" "snd (headCell ?new) \<in> \<int>"
      "fst (tailCell ?new) \<in> \<int>" "snd (tailCell ?new) \<in> \<int>"
      unfolding hd tl' using hv step_Ints[of ?cat] by simp_all
    have "activeCells cs' = activeCells ?pre @ cellsOf ?new @ activeCells ?post"
      using ac' False by simp
    moreover have "distinct (cellsOf ?new)"
      using head_neq_tail[of ?new] by (simp add: cellsOf_def)
    moreover have "set (cellsOf ?new) = {headCell ?new, tailCell ?new}"
      by (simp add: cellsOf_def)
    ultimately show ?thesis
      unfolding wellPlaced_def using dpp(1-3) vpp dids ids hd_ok tl_ok cint by auto
  qed
qed

subsection \<open>Ids of a generated level\<close>

lemma placeCats_ids:
  assumes inj: "inj (\<lambda>n. toId rnd (random rnd n))"
  shows "distinct (map cat_id cs) \<Longrightarrow> \<forall>c\<in>set cs. \<exists>m<n. cat_id c = toId rnd (random rnd m) \<Longrightarrow>
     distinct (map cat_id (placeCats config rnd g target cells n cs occ))"
proof (induction cells arbitrary: n cs occ)
  case Nil
  then show ?case by simp
next
  case (Cons cell rest)
  let ?P = "\<lambda>dir. isValid (fst cell - fst (getDelta dir)) (snd cell - snd (getDelta dir)) g
                \<and> (fst cell - fst (getDelta dir), snd cell - snd (getDelta dir)) \<notin> occ"
  show ?case
  proof (cases "int (length cs) \<ge> target")
    case True
    with Cons.prems(1) show ?thesis by simp
  next
    case nfull: False
    show ?thesis
    proof (cases "cell \<in> occ")
      case True
      with nfull Cons.IH[OF Cons.prems] show ?thesis by simp
    next
      case free: False
      show ?thesis
      proof (cases "find ?P (fisherYates (random rnd) n 3 [UP, DOWN, LEFT, RIGHT])")
        case None
        have "\<forall>c\<in>set cs. \<exists>m<n + 3. cat_id c = toId rnd (random rnd m)"
          using Cons.prems(2) by (meson trans_less_add1)
        from Cons.IH[OF Cons.prems(1) this] nfull free None show ?thesis by (simp add: Let_def)
      next
        case (Some dir)
        obtain cat where cid: "cat_id cat = toId rnd (random rnd (n + 5))"
          and eq: "placeCats config rnd g target (cell # rest) n cs occ
            = placeCats config rnd g target rest (n + 6) (cs @ [cat])
                (insert (fst cell - fst (getDelta dir), snd cell - snd (getDelta dir))
                   (insert cell occ))"
          using placeCats_step[OF nfull free Some, of config rest] by auto
        have fresh: "cat_id cat \<notin> cat_id ` set cs"
        proof
          assume "cat_id cat \<in> cat_id ` set cs"
          then obtain c where "c \<in> set cs" "cat_id c = cat_id cat" by auto
          with Cons.prems(2) obtain m where "m < n" "toId rnd (random rnd m) = toId rnd (random rnd (n + 5))"
            using cid by metis
          with inj show False by (auto dest: injD)
        qed
        with Cons.prems(1) have d: "distinct (map cat_id (cs @ [cat]))" by simp
        have "\<forall>c\<in>set (cs @ [cat]). \<exists>m<n + 6. cat_id c = toId rnd (random rnd m)"
        proof
          fix c assume "c \<in> set (cs @ [cat])"
          then consider "c \<in> set cs" | "c = cat" by auto
          then show "\<exists>m<n + 6. cat_id c = toId rnd (random rnd m)"
          proof cases
            case 1
            with Cons.prems(2) obtain m where "m < n" "cat_id c = toId rnd (random rnd m)" by blast
            then show ?thesis by (intro exI[of _ m]) simp
          next
            case 2
            with cid show ?thesis by (intro exI[of _ "n + 5"]) simp
          qed
        qed
        from Cons.IH[OF d this] show ?thesis unfolding eq .
      qed
    qed
  qed
qed

lemma generateLevel_ids:
  assumes "inj (\<lambda>n. toId rnd (random rnd n))"
  shows "distinct (map cat_id (cats (generateLevel lvl rnd)))"
proof -
  let ?g = "cfg_size (getLevelConfig lvl)"
  let ?placed = "placeCats (getLevelConfig lvl) rnd ?g
      ((?g * ?g - (\<lfloor>random rnd 0 * of_int (10 - 2 + 1)\<rfloor> + 2)) div 2)
      (sort_key (\<lambda>a. (fst a - of_int ?g / 2)\<^sup>2 + (snd a - of_int ?g / 2)\<^sup>2)
         (sortCells rnd (allCells ?g))) 1 [] {}"
  have cs: "cats (generateLevel lvl rnd) = sort_key (\<lambda>a. (cat_y a, cat_x a)) ?placed"
    by (simp add: generateLevel_def Let_def)
  have d: "distinct (map cat_id ?placed)"
    by (rule placeCats_ids[OF assms]) simp_all
  have "mset (map cat_id (cats (generateLevel lvl rnd))) = mset (map cat_id ?placed)"
    unfolding cs by (simp only: mset_map mset_sort)
  then have "distinct (map cat_id (cats (generateLevel lvl rnd))) = distinct (map cat_id ?placed)"
    by (rule mset_eq_imp_distinct_iff)
  with d show ?thesis by blast
qed

lemma generateLevel_gridSize:
  "gridSize (generateLevel lvl rnd) = cfg_size (getLevelConfig lvl)"
  by (simp add: generateLevel_def Let_def)

lemma example_ids: "inj (\<lambda>n. toId exampleRandomness (random exampleRandomness n))"
proof (rule injI)
  fix a b :: nat
  have r: "toId exampleRandomness (random exampleRandomness n) = replicate (n + 2) CHR ''a''" for n
  proof -
    have "(1::rat) / (1 / (of_nat n + 2)) = of_int (int n + 2)" by simp
    then have "\<lfloor>(1::rat) / (1 / (of_nat n + 2))\<rfloor> = int n + 2" by (simp only: floor_of_int)
    then show ?thesis by (simp add: exampleRandomness_def nat_add_distrib)
  qed
  assume "toId exampleRandomness (random exampleRandomness a)
      = toId exampleRandomness (random exampleRandomness b)"
  then have "length (replicate (a + 2) CHR ''a'') = length (replicate (b + 2) CHR ''a'')"
    by (simp only: r)
  then show "a = b" by simp
qed

subsection \<open>Every reachable board\<close>

lemma wellPlaced_onGrid: "wellPlaced g cs \<Longrightarrow> onGrid g cs"
  by (simp add: wellPlaced_def onGrid_def)

lemma wellPlaced_iff:
  "wellPlaced g cs \<longleftrightarrow> distinct (map cat_id cs) \<and> onGrid g cs \<and> distinct (activeCells cs)"
  by (simp add: wellPlaced_def onGrid_def)

lemma onGrid_inBounds: "onGrid g cs \<Longrightarrow> inBounds g cs"
  unfolding inBounds_def
proof (intro ballI impI)
  fix c assume w: "onGrid g cs" and c: "c \<in> set cs" "\<not> isExited c"
  from c have "set (cellsOf c) \<subseteq> set (activeCells cs)" by (rule cellsOf_subset_activeCells)
  then have "headCell c \<in> set (activeCells cs)" "tailCell c \<in> set (activeCells cs)"
    by (simp_all add: cellsOf_def)
  with w show "isValid (fst (headCell c)) (snd (headCell c)) g
        \<and> isValid (fst (tailCell c)) (snd (tailCell c)) g"
    by (simp add: onGrid_def)
qed

lemma generateLevel_cells:
  assumes perm: "mset (sortCells rnd (allCells (cfg_size (getLevelConfig lvl))))
       = mset (allCells (cfg_size (getLevelConfig lvl)))"
  shows "onGrid (gridSize (generateLevel lvl rnd)) (cats (generateLevel lvl rnd))
       \<and> distinct (activeCells (cats (generateLevel lvl rnd)))"
proof -
  let ?cfg = "getLevelConfig lvl"
  let ?g = "cfg_size ?cfg"
  let ?cells = "sort_key (\<lambda>a. (fst a - of_int ?g / 2)\<^sup>2 + (snd a - of_int ?g / 2)\<^sup>2)
                  (sortCells rnd (allCells ?g))"
  let ?target = "(?g * ?g - (\<lfloor>random rnd 0 * of_int (10 - 2 + 1)\<rfloor> + 2)) div 2"
  let ?placed = "placeCats ?cfg rnd ?g ?target ?cells 1 [] {}"
  have g: "gridSize (generateLevel lvl rnd) = ?g"
    by (simp add: generateLevel_def Let_def)
  have cs: "cats (generateLevel lvl rnd) = sort_key (\<lambda>a. (cat_y a, cat_x a)) ?placed"
    by (simp add: generateLevel_def Let_def)
  from perm have "set (sortCells rnd (allCells ?g)) = set (allCells ?g)" by (rule mset_eq_setD)
  then have "\<forall>p\<in>set ?cells. isValid (fst p) (snd p) ?g \<and> fst p \<in> \<int> \<and> snd p \<in> \<int>"
    using allCells_valid by simp
  moreover have "placedOk ?g [] {}" by (simp add: placedOk_def)
  ultimately obtain occ' where "placedOk ?g ?placed occ'"
    using placeCats_placedOk by blast
  then have ok: "distinct (activeCells ?placed)"
    "\<forall>p\<in>set (activeCells ?placed). isValid (fst p) (snd p) ?g \<and> fst p \<in> \<int> \<and> snd p \<in> \<int>"
    by (simp_all add: placedOk_def)
  have m: "mset (activeCells (cats (generateLevel lvl rnd))) = mset (activeCells ?placed)"
    unfolding cs by (rule mset_activeCells_cong) simp
  then have "set (activeCells (cats (generateLevel lvl rnd))) = set (activeCells ?placed)"
    by (rule mset_eq_setD)
  moreover from m have "distinct (activeCells (cats (generateLevel lvl rnd)))
      = distinct (activeCells ?placed)"
    by (rule mset_eq_imp_distinct_iff)
  ultimately show ?thesis
    unfolding onGrid_def g using ok by simp
qed

lemma shuffleCats_cells:
  assumes perm: "mset (sortCells rnd (allCells g)) = mset (allCells g)"
  shows "onGrid g (shuffleCats cs g rnd) \<and> distinct (activeCells (shuffleCats cs g rnd))"
proof -
  let ?act = "filter (\<lambda>c. \<not> isExited c) cs"
  let ?loop = "shuffleLoop rnd g (sortCells rnd (allCells g)) ?act 0 [] {}"
  from perm have "set (sortCells rnd (allCells g)) = set (allCells g)" by (rule mset_eq_setD)
  then have "\<forall>p\<in>set (sortCells rnd (allCells g)). isValid (fst p) (snd p) g \<and> fst p \<in> \<int> \<and> snd p \<in> \<int>"
    using allCells_valid by simp
  moreover have "placedOk g [] {}" by (simp add: placedOk_def)
  moreover have "\<forall>c\<in>set ?act. \<not> isExited c" by simp
  ultimately obtain occ' where "placedOk g ?loop occ'"
    using shuffleLoop_placedOk by blast
  then have ok: "distinct (activeCells ?loop)"
    "\<forall>p\<in>set (activeCells ?loop). isValid (fst p) (snd p) g \<and> fst p \<in> \<int> \<and> snd p \<in> \<int>"
    by (simp_all add: placedOk_def)
  have "mset (activeCells (shuffleCats cs g rnd)) = mset (activeCells (filter isExited cs @ ?loop))"
    unfolding shuffleCats_def Let_def by (rule mset_activeCells_cong) simp
  then have m: "mset (activeCells (shuffleCats cs g rnd)) = mset (activeCells ?loop)"
    by (simp add: activeCells_append activeCells_exited)
  then have "set (activeCells (shuffleCats cs g rnd)) = set (activeCells ?loop)"
    by (rule mset_eq_setD)
  moreover from m have "distinct (activeCells (shuffleCats cs g rnd)) = distinct (activeCells ?loop)"
    by (rule mset_eq_imp_distinct_iff)
  ultimately show ?thesis
    unfolding onGrid_def using ok by simp
qed

lemma onGrid_flipAll: "onGrid g cs \<Longrightarrow> onGrid g (flipAll cs)"
proof -
  have "mset (activeCells (flipAll cs)) = mset (activeCells cs)"
    unfolding flipAll_def by (rule mset_activeCells_flip)
  then have "set (activeCells (flipAll cs)) = set (activeCells cs)" by (rule mset_eq_setD)
  then show "onGrid g cs \<Longrightarrow> onGrid g (flipAll cs)" by (simp add: onGrid_def)
qed

lemma flipAll_ids: "map cat_id (flipAll cs) = map cat_id cs"
  by (simp add: flipAll_def flipCat_frame comp_def)

lemma bombTick_ids: "map cat_id (fst (bombTick cs)) = map cat_id cs"
  by (simp add: bombTick_def Let_def tickCat_same comp_def)

lemma onGrid_bombTick: "onGrid g cs \<Longrightarrow> onGrid g (fst (bombTick cs))"
  by (simp add: bombTick_def Let_def onGrid_def activeCells_tick)

lemma resolveMove_ids:
  assumes "resolveMove cid cs g = Some cs'"
  shows "map cat_id cs' = map cat_id cs"
proof -
  from resolveMove_SomeD[OF assms] obtain k tx ty wx where
    idx: "findIndex (\<lambda>c. cat_id c = cid) cs = Some k"
    and cs': "cs' = cs[k := (cs ! k)\<lparr>cat_x := tx, cat_y := ty, isExited := wx, isMoving := True\<rparr>]"
    by blast
  from findIndex_Some[OF idx] have klen: "k < length cs" by simp
  have "map cat_id cs' = (map cat_id cs)[k := cat_id (cs ! k)]"
    unfolding cs' by (simp add: map_update)
  also have "\<dots> = map cat_id cs" using klen by (simp add: list_update_same_conv)
  finally show ?thesis .
qed

lemma onGrid_resolveMove:
  assumes w: "onGrid g cs" and mv: "resolveMove cid cs g = Some cs'"
  shows "onGrid g cs'"
proof -
  from resolveMove_SomeD[OF mv] obtain k tx ty wx where
    idx: "findIndex (\<lambda>c. cat_id c = cid) cs = Some k" and act: "\<not> isExited (cs ! k)"
    and ray: "raycast cs cid g (cs ! k) [1..g] (cat_x (cs ! k), cat_y (cs ! k), False) = (tx, ty, wx)"
    and moved: "\<not> (tx = cat_x (cs ! k) \<and> ty = cat_y (cs ! k))"
    and cs': "cs' = cs[k := (cs ! k)\<lparr>cat_x := tx, cat_y := ty, isExited := wx, isMoving := True\<rparr>]"
    by blast
  let ?cat = "cs ! k"
  let ?new = "?cat\<lparr>cat_x := tx, cat_y := ty, isExited := wx, isMoving := True\<rparr>"
  let ?pre = "take k cs"
  let ?post = "drop (Suc k) cs"
  from findIndex_Some[OF idx] have klen: "k < length cs" by simp
  have split: "cs = ?pre @ ?cat # ?post" using klen by (rule id_take_nth_drop)
  have split': "cs' = ?pre @ ?new # ?post" unfolding cs' using klen by (rule upd_conv_take_nth_drop)
  have ac: "activeCells cs = activeCells ?pre @ cellsOf ?cat @ activeCells ?post"
    using act by (subst split) (simp add: activeCells_append activeCells_Cons)
  have ac': "activeCells cs' = activeCells ?pre @ (if wx then [] else cellsOf ?new) @ activeCells ?post"
    unfolding split' by (simp add: activeCells_append activeCells_Cons)
  from w have vpp: "\<forall>p\<in>set (activeCells ?pre) \<union> set (activeCells ?post).
      isValid (fst p) (snd p) g \<and> fst p \<in> \<int> \<and> snd p \<in> \<int>"
    and vcat: "\<forall>p\<in>set (cellsOf ?cat). isValid (fst p) (snd p) g \<and> fst p \<in> \<int> \<and> snd p \<in> \<int>"
    unfolding onGrid_def ac by auto
  show ?thesis
  proof (cases wx)
    case True
    with ac' have "activeCells cs' = activeCells ?pre @ activeCells ?post" by simp
    with vpp show ?thesis by (auto simp: onGrid_def)
  next
    case False
    from vcat have hv: "isValid (cat_x ?cat) (cat_y ?cat) g" "cat_x ?cat \<in> \<int>" "cat_y ?cat \<in> \<int>"
      by (simp_all add: cellsOf_def headCell_def)
    from ray False have "raycast cs cid g ?cat [1..g] (stepX ?cat (1 - 1), stepY ?cat (1 - 1), False)
        = (tx, ty, False)" by (simp add: step_zero)
    from raycast_stays[OF this] obtain m where m: "0 \<le> m" "tx = stepX ?cat m" "ty = stepY ?cat m"
      "\<forall>s. 1 \<le> s \<and> s \<le> m \<longrightarrow> freeStep cs cid g ?cat s"
      by auto
    from moved m(2,3) have "m \<noteq> 0" by (auto simp: step_zero)
    with m(1) have m1: "1 \<le> m" by simp
    have free_in: "isValid (stepX ?cat s) (stepY ?cat s) g" if "1 \<le> s" "s \<le> m" for s
      using m(4) that by (simp add: freeStep_def)
    have hd: "headCell ?new = (stepX ?cat m, stepY ?cat m)"
      using m by (simp add: headCell_def)
    have tl': "tailCell ?new = (stepX ?cat (m - 1), stepY ?cat (m - 1))"
      using m by (simp add: tailCell_def step_pred)
    have hd_ok: "isValid (fst (headCell ?new)) (snd (headCell ?new)) g"
      unfolding hd using free_in[of m] m1 by simp
    have tl_ok: "isValid (fst (tailCell ?new)) (snd (tailCell ?new)) g"
    proof (cases "m = 1")
      case True
      then have "tailCell ?new = (cat_x ?cat, cat_y ?cat)"
        unfolding tl' by (simp add: step_zero)
      with hv show ?thesis by simp
    next
      case False
      with m1 have "1 \<le> m - 1" "m - 1 \<le> m" by simp_all
      from free_in[OF this] show ?thesis unfolding tl' by simp
    qed
    have cint: "fst (headCell ?new) \<in> \<int>" "snd (headCell ?new) \<in> \<int>"
      "fst (tailCell ?new) \<in> \<int>" "snd (tailCell ?new) \<in> \<int>"
      unfolding hd tl' using hv step_Ints[of ?cat] by simp_all
    have "activeCells cs' = activeCells ?pre @ cellsOf ?new @ activeCells ?post"
      using ac' False by simp
    moreover have "set (cellsOf ?new) = {headCell ?new, tailCell ?new}"
      by (simp add: cellsOf_def)
    ultimately show ?thesis
      unfolding onGrid_def using vpp hd_ok tl_ok cint by auto
  qed
qed

lemma reachable_kept:
  "reachable cs g \<Longrightarrow> onGrid g cs \<and> (distinct (map cat_id cs) \<longrightarrow> wellPlaced g cs)"
proof (induction rule: reachable.induct)
  case (generated rnd lvl)
  from generateLevel_cells[OF generated] show ?case by (simp add: wellPlaced_iff)
next
  case (moved cs g cid cs')
  from moved.IH moved.hyps(2) have "onGrid g cs'" by (blast intro: onGrid_resolveMove)
  moreover have "wellPlaced g cs'" if "distinct (map cat_id cs')"
  proof -
    from that moved.hyps(2) have "distinct (map cat_id cs)" by (simp add: resolveMove_ids)
    with moved.IH have "wellPlaced g cs" by blast
    then show ?thesis using moved.hyps(2) by (rule wellPlaced_resolveMove)
  qed
  ultimately show ?case by blast
next
  case (shuffled cs g rnd)
  from shuffleCats_cells[OF shuffled.hyps(2)] show ?case by (simp add: wellPlaced_iff)
next
  case (flipped cs g)
  then show ?case by (auto simp: flipAll_ids intro: onGrid_flipAll wellPlaced_flipAll)
next
  case (ticked cs g)
  then show ?case by (auto simp: bombTick_ids intro: onGrid_bombTick wellPlaced_bombTick)
qed

text \<open>
  What holds of the board invariant. In every state reached from \<open>generateLevel\<close> by moves,
  shuffles, flips and bomb ticks, every non-exited piece has its head and its tail inside
  the grid; and if the ids of the state are pairwise different, two different non-exited
  pieces share no cell.
\<close>

theorem reachable_board_invariant:
  assumes "reachable cs g"
  shows "inBounds g cs \<and> (distinct (map cat_id cs) \<longrightarrow> noOverlap cs)"
  using reachable_kept[OF assms] onGrid_inBounds wellPlaced_noOverlap by blast

section \<open>Density of a generated level\<close>

lemma placeCats_length:
  "int (length (placeCats config rnd g target cells n cs occ)) \<le> max target (int (length cs))"
proof (induction cells arbitrary: n cs occ)
  case Nil
  then show ?case by simp
next
  case (Cons cell rest)
  let ?P = "\<lambda>dir. isValid (fst cell - fst (getDelta dir)) (snd cell - snd (getDelta dir)) g
                \<and> (fst cell - fst (getDelta dir), snd cell - snd (getDelta dir)) \<notin> occ"
  show ?case
  proof (cases "int (length cs) \<ge> target")
    case True
    then show ?thesis by simp
  next
    case nfull: False
    show ?thesis
    proof (cases "cell \<in> occ")
      case True
      with nfull Cons.IH[of n cs occ] show ?thesis by simp
    next
      case free: False
      show ?thesis
      proof (cases "find ?P (fisherYates (random rnd) n 3 [UP, DOWN, LEFT, RIGHT])")
        case None
        with nfull free Cons.IH[of "n + 3" cs occ] show ?thesis by (simp add: Let_def)
      next
        case (Some dir)
        obtain cat where eq: "placeCats config rnd g target (cell # rest) n cs occ
            = placeCats config rnd g target rest (n + 6) (cs @ [cat])
                (insert (fst cell - fst (getDelta dir), snd cell - snd (getDelta dir))
                   (insert cell occ))"
          using placeCats_step[OF nfull free Some, of config rest] by auto
        have "int (length (placeCats config rnd g target (cell # rest) n cs occ))
            \<le> max target (int (length (cs @ [cat])))"
          unfolding eq by (rule Cons.IH)
        also have "\<dots> = target" using nfull by simp
        finally show ?thesis by simp
      qed
    qed
  qed
qed

text \<open>
  What the code keeps of the density bound: with the first draw in \<open>[0, 1)\<close>, the number of
  cells left empty is at least 2, and at most 11 when the loop reached its target.
\<close>

lemma generateLevel_density_bounds:
  assumes r: "0 \<le> random rnd 0" "random rnd 0 < 1"
  shows "2 \<le> gridSize (generateLevel lvl rnd) * gridSize (generateLevel lvl rnd)
            - 2 * int (length (cats (generateLevel lvl rnd)))"
    and "int (length (cats (generateLevel lvl rnd)))
           = (gridSize (generateLevel lvl rnd) * gridSize (generateLevel lvl rnd)
                - (\<lfloor>random rnd 0 * 9\<rfloor> + 2)) div 2
         \<Longrightarrow> gridSize (generateLevel lvl rnd) * gridSize (generateLevel lvl rnd)
            - 2 * int (length (cats (generateLevel lvl rnd))) \<le> 11"
proof -
  let ?g = "cfg_size (getLevelConfig lvl)"
  let ?e = "\<lfloor>random rnd 0 * 9\<rfloor> + 2"
  let ?target = "(?g * ?g - ?e) div 2"
  let ?n = "int (length (cats (generateLevel lvl rnd)))"
  have g: "gridSize (generateLevel lvl rnd) = ?g" by (rule generateLevel_gridSize)
  have "?g = 8 \<or> ?g = 9 \<or> ?g = 10 \<or> ?g = 11" by (simp add: getLevelConfig_def)
  then have gg: "64 \<le> ?g * ?g" by auto
  from r have "0 \<le> random rnd 0 * 9" "random rnd 0 * 9 < 9" by simp_all
  then have "0 \<le> \<lfloor>random rnd 0 * 9\<rfloor>" "\<lfloor>random rnd 0 * 9\<rfloor> < 9"
    by (simp_all add: floor_less_iff)
  then have e: "2 \<le> ?e" "?e \<le> 10" by simp_all
  have "?n = int (length (placeCats (getLevelConfig lvl) rnd ?g ?target
      (sort_key (\<lambda>a. (fst a - of_int ?g / 2)\<^sup>2 + (snd a - of_int ?g / 2)\<^sup>2)
         (sortCells rnd (allCells ?g))) 1 [] {}))"
    by (simp add: generateLevel_def Let_def)
  also have "\<dots> \<le> max ?target (int (length ([]::CatEntity list)))" by (rule placeCats_length)
  also have "\<dots> = ?target"
  proof -
    from gg e have "0 \<le> ?g * ?g - ?e" by linarith
    then have "0 \<le> ?target" by simp
    then show ?thesis by simp
  qed
  finally have n: "?n \<le> ?target" .
  have "2 * ?target \<le> ?g * ?g - ?e" by simp
  with n e show "2 \<le> gridSize (generateLevel lvl rnd) * gridSize (generateLevel lvl rnd) - 2 * ?n"
    unfolding g by linarith
  assume "?n = (gridSize (generateLevel lvl rnd) * gridSize (generateLevel lvl rnd) - ?e) div 2"
  then have "?n = ?target" unfolding g .
  moreover have "?g * ?g - ?e - 1 \<le> 2 * ?target" by simp
  ultimately show "gridSize (generateLevel lvl rnd) * gridSize (generateLevel lvl rnd) - 2 * ?n \<le> 11"
    unfolding g using e by linarith
qed

lemma centreOut9_sorted:
  "sort_key (\<lambda>a. (fst a - of_int 9 / 2)\<^sup>2 + (snd a - of_int 9 / 2)\<^sup>2) (allCells 9) = centreOut9"
  by code_simp

lemma centreOut9_placed:
  "length (placeCats (getLevelConfig 5) eightNinths 9 35 centreOut9 1 [] {}) = 35"
  by code_simp

text \<open>
  C2, at level 5 with every draw \<open>8/9\<close>: the grid is 9 by 9, \<open>emptySlots\<close> is 10, the
  target \<open>floor(71 / 2) = 35\<close> is reached, and 11 cells stay empty.
\<close>

theorem generateLevel_eleven_empty:
  "gridSize (generateLevel 5 eightNinths) = 9
   \<and> \<lfloor>random eightNinths 0 * of_int (10 - 2 + 1)\<rfloor> + 2 = 10
   \<and> (9 * 9 - (\<lfloor>random eightNinths 0 * of_int (10 - 2 + 1)\<rfloor> + 2)) div 2 = 35
   \<and> length (cats (generateLevel 5 eightNinths)) = 35
   \<and> gridSize (generateLevel 5 eightNinths) * gridSize (generateLevel 5 eightNinths)
        - 2 * int (length (cats (generateLevel 5 eightNinths))) = 11"
proof -
  have g: "cfg_size (getLevelConfig 5) = 9" by (simp add: getLevelConfig_def)
  have gs: "gridSize (generateLevel 5 eightNinths) = 9"
    by (simp add: generateLevel_gridSize g)
  have e: "\<lfloor>random eightNinths 0 * of_int (10 - 2 + 1)\<rfloor> + 2 = 10"
    by (simp add: eightNinths_def)
  have s: "sortCells eightNinths xs = xs" for xs by (simp add: eightNinths_def)
  have "cats (generateLevel 5 eightNinths)
      = sort_key (\<lambda>a. (cat_y a, cat_x a))
          (placeCats (getLevelConfig 5) eightNinths 9 35 centreOut9 1 [] {})"
    unfolding generateLevel_def Let_def g e s centreOut9_sorted by simp
  then have n: "length (cats (generateLevel 5 eightNinths)) = 35"
    by (simp only: length_sort centreOut9_placed)
  from gs e n show ?thesis by simp
qed

section \<open>The board invariant and two pieces with one id\<close>

lemma twin_draw: "random twinDraws n = 8 / 9 + 1 / (9 * (of_nat (if n = 42 then 6 else n) + 2))"
  by (simp add: twinDraws_def)

lemma twin_draw_range: "8 / 9 < random twinDraws n" "random twinDraws n < 1"
proof -
  define m :: rat where "m = of_nat (if n = 42 then 6 else n)"
  have r: "random twinDraws n = 8 / 9 + 1 / (9 * (m + 2))"
    by (simp add: twin_draw m_def)
  have m: "0 \<le> m" by (simp add: m_def)
  then have pos: "0 < 9 * (m + 2)" by simp
  then have "0 < 1 / (9 * (m + 2))" by simp
  then show "8 / 9 < random twinDraws n" unfolding r by simp
  have "9 < 9 * (m + 2)" using m by simp
  then have "1 / (9 * (m + 2)) < 1 / 9"
    by (intro divide_strict_left_mono) simp_all
  then show "random twinDraws n < 1" unfolding r by simp
qed

lemma twin_floor:
  assumes "0 < (k::int)"
  shows "\<lfloor>random twinDraws n * of_int k\<rfloor> = (if k \<le> 9 then k - 1 else \<lfloor>random twinDraws n * of_int k\<rfloor>)"
proof (cases "k \<le> 9")
  case False
  then show ?thesis by simp
next
  case True
  let ?r = "random twinDraws n"
  have k: "(0::rat) < of_int k" "(of_int k :: rat) \<le> 9" using assms True by simp_all
  have "?r * of_int k < of_int k" using twin_draw_range(2)[of n] k(1) by simp
  moreover have "of_int k - 1 \<le> ?r * of_int k"
  proof -
    have "of_int k - 1 \<le> (8 / 9) * (of_int k :: rat)" using k(2) by simp
    also have "\<dots> \<le> ?r * of_int k"
      using twin_draw_range(1)[of n] k(1) by (intro mult_right_mono) simp_all
    finally show ?thesis .
  qed
  ultimately have "\<lfloor>?r * of_int k\<rfloor> = k - 1"
    by (intro floor_unique) simp_all
  with True show ?thesis by simp
qed

lemma twin_fisherYates:
  "fisherYates (random twinDraws) n 3 [UP, DOWN, LEFT, RIGHT] = [UP, DOWN, LEFT, RIGHT]"
proof -
  have f: "\<lfloor>random twinDraws m * 4\<rfloor> = 3" "\<lfloor>random twinDraws m * 3\<rfloor> = 2"
    "\<lfloor>random twinDraws m * 2\<rfloor> = 1" for m
    using twin_floor[of 4 m] twin_floor[of 3 m] twin_floor[of 2 m] by simp_all
  have "fisherYates (random twinDraws) n (Suc (Suc (Suc 0))) [UP, DOWN, LEFT, RIGHT]
      = [UP, DOWN, LEFT, RIGHT]"
    by (simp add: f Let_def eval_nat_numeral)
  then show ?thesis by (simp add: eval_nat_numeral)
qed


lemma twin_id:
  "toId twinDraws (random twinDraws n)
     = [''ABCDEFGHIJKLMNOP'' ! (((if n = 42 then 6 else n) + 2) div 16),
        ''ABCDEFGHIJKLMNOP'' ! (((if n = 42 then 6 else n) + 2) mod 16)]"
proof -
  define m :: nat where "m = (if n = 42 then 6 else n)"
  have r: "random twinDraws n = 8 / 9 + 1 / (9 * (of_nat m + 2))"
    by (simp add: twin_draw m_def)
  have "9 * random twinDraws n - 8 = 1 / (of_nat m + 2)"
    unfolding r by (simp add: field_simps)
  then have "1 / (9 * random twinDraws n - 8) = of_int (int m + 2)" by simp
  then have "\<lfloor>1 / (9 * random twinDraws n - 8)\<rfloor> = int m + 2" by (simp only: floor_of_int)
  then have "nat \<lfloor>1 / (9 * random twinDraws n - 8)\<rfloor> = m + 2" by simp
  then show ?thesis by (simp add: twinDraws_def m_def)
qed

lemma twin_skin:
  "jsIndex (jsSlice0 CAT_SKINS (skinCount (getLevelConfig 5)))
     \<lfloor>random twinDraws n * of_nat (length (jsSlice0 CAT_SKINS (skinCount (getLevelConfig 5))))\<rfloor>
   = Some ''bg-slate-400''"
proof -
  have s: "jsSlice0 CAT_SKINS (skinCount (getLevelConfig 5))
      = [''bg-slate-100'', ''bg-orange-300'', ''bg-slate-400'']"
    by (simp add: getLevelConfig_def jsSlice0_def CAT_SKINS_def)
  have "\<lfloor>random twinDraws n * 3\<rfloor> = 2" using twin_floor[of 3 n] by simp
  then show ?thesis by (simp add: s jsIndex_def)
qed

lemma twin_not_bomb: "\<not> random twinDraws n < bombChance (getLevelConfig 5)"
  using twin_draw_range(1)[of n] by (simp add: getLevelConfig_def)

lemma placeCats_twin:
  "placeCats (getLevelConfig 5) twinDraws g target (cell # rest) n cs occ =
     (if int (length cs) \<ge> target then cs
      else if cell \<in> occ then placeCats (getLevelConfig 5) twinDraws g target rest n cs occ
      else
        case find (\<lambda>dir. isValid (fst cell - fst (getDelta dir)) (snd cell - snd (getDelta dir)) g
                      \<and> (fst cell - fst (getDelta dir), snd cell - snd (getDelta dir)) \<notin> occ)
               [UP, DOWN, LEFT, RIGHT] of
          None \<Rightarrow> placeCats (getLevelConfig 5) twinDraws g target rest (n + 3) cs occ
        | Some dir \<Rightarrow>
            placeCats (getLevelConfig 5) twinDraws g target rest (n + 6)
              (cs @ [piece (toId twinDraws (random twinDraws (n + 5)))
                       (fst cell - fst (getDelta dir)) (snd cell - snd (getDelta dir))
                       (getOppositeDir dir)])
              (insert (fst cell - fst (getDelta dir), snd cell - snd (getDelta dir))
                 (insert cell occ)))"
  by (simp add: twin_fisherYates twin_skin twin_not_bomb piece_def Let_def
        split: option.splits)


lemma twinLevel_placed:
  "sort_key (\<lambda>a. (cat_y a, cat_x a))
     (placeCats (getLevelConfig 5) twinDraws 9 35 centreOut9 1 [] {}) = twinLevel"
  by (simp add: placeCats_twin centreOut9_def isValid_def twin_id twinLevel_def piece_def
        del: placeCats.simps(2))

lemma twinLevel_generated:
  "cats (generateLevel 5 twinDraws) = twinLevel" "gridSize (generateLevel 5 twinDraws) = 9"
proof -
  have g: "cfg_size (getLevelConfig 5) = 9" by (simp add: getLevelConfig_def)
  have e: "\<lfloor>random twinDraws 0 * of_int (10 - 2 + 1)\<rfloor> + 2 = 10"
    using twin_floor[of 9 0] by simp
  have s: "sortCells twinDraws xs = xs" for xs by (simp add: twinDraws_def)
  have "cats (generateLevel 5 twinDraws)
      = sort_key (\<lambda>a. (cat_y a, cat_x a))
          (placeCats (getLevelConfig 5) twinDraws 9 35 centreOut9 1 [] {})"
    unfolding generateLevel_def Let_def g e s centreOut9_sorted by simp
  then show "cats (generateLevel 5 twinDraws) = twinLevel"
    by (simp only: twinLevel_placed)
  show "gridSize (generateLevel 5 twinDraws) = 9"
    by (simp add: generateLevel_gridSize g)
qed

lemma twinLevel_moved: "resolveMove ''AI'' twinLevel 9 = Some twinMoved"
  by code_simp

lemma twinMoved_pieces:
  "length twinMoved = 35"
  "twinMoved ! 19 = (piece ''AI'' 4 7 DOWN)\<lparr>isMoving := True\<rparr>"
  "twinMoved ! 27 = piece ''AI'' 4 7 DOWN"
  by (simp_all add: twinMoved_def twinLevel_def)

lemma twinMoved_reachable: "reachable twinMoved 9"
proof -
  have "mset (sortCells twinDraws (allCells (cfg_size (getLevelConfig 5))))
      = mset (allCells (cfg_size (getLevelConfig 5)))"
    by (simp add: twinDraws_def)
  then have "reachable (cats (generateLevel 5 twinDraws)) (gridSize (generateLevel 5 twinDraws))"
    by (rule reachable.generated)
  then have "reachable twinLevel 9" by (simp only: twinLevel_generated)
  then show ?thesis using twinLevel_moved by (rule reachable.moved)
qed

text \<open>
  C1, at level 5 with two equal ids. The draws 6 and 42 of \<open>genId\<close> are equal, so the
  pieces at \<open>(4, 5)\<close> and \<open>(4, 7)\<close> of the generated level both have the id \<open>AI\<close>. A click
  on \<open>AI\<close> moves the first of them: its raycast skips its twin and stops at \<open>(4, 7)\<close>. The
  board reached is inside the grid, with two non-exited pieces on the cells \<open>(4, 7)\<close> and
  \<open>(4, 6)\<close>.
\<close>

theorem twin_ids_overlap:
  "cats (generateLevel 5 twinDraws) = twinLevel
   \<and> gridSize (generateLevel 5 twinDraws) = 9
   \<and> resolveMove ''AI'' twinLevel 9 = Some twinMoved
   \<and> reachable twinMoved 9
   \<and> inBounds 9 twinMoved
   \<and> \<not> isExited (twinMoved ! 19) \<and> \<not> isExited (twinMoved ! 27)
   \<and> cellsOf (twinMoved ! 19) = [(4, 7), (4, 6)]
   \<and> cellsOf (twinMoved ! 27) = [(4, 7), (4, 6)]
   \<and> \<not> noOverlap twinMoved"
proof -
  have b: "inBounds 9 twinMoved"
    using reachable_kept[OF twinMoved_reachable] onGrid_inBounds by blast
  have x: "\<not> isExited (twinMoved ! 19)" "\<not> isExited (twinMoved ! 27)"
    by (simp_all add: twinMoved_pieces piece_def)
  have c: "cellsOf (twinMoved ! 19) = [(4, 7), (4, 6)]"
    "cellsOf (twinMoved ! 27) = [(4, 7), (4, 6)]"
    by (simp_all add: twinMoved_pieces piece_def cellsOf_def headCell_def tailCell_def)
  have "\<not> noOverlap twinMoved"
  proof
    assume "noOverlap twinMoved"
    then have "set (cellsOf (twinMoved ! 19)) \<inter> set (cellsOf (twinMoved ! 27)) = {}"
      unfolding noOverlap_def using x by (simp add: twinMoved_pieces(1))
    then show False by (simp add: c)
  qed
  with b x c twinLevel_generated twinLevel_moved twinMoved_reachable show ?thesis by simp
qed

text \<open>So the board invariant does not hold in every reachable state.\<close>

theorem twin_ids_break_invariant:
  "\<not> (\<forall>cs g. reachable cs g \<longrightarrow> inBounds g cs \<and> noOverlap cs)"
  using twin_ids_overlap by blast

end
